theory Spec2Isabelle
  imports Main "HOL-Library.Signed_Division"
begin

section \<open>Data model of \<open>game_of_life.cpp\<close>\<close>

text \<open>
  A row is a \<open>std::vector<char>\<close>, a raw grid a vector of rows. The class \<open>Grid\<close> has the
  raw grid as its only field, so a \<open>Grid\<close> is modelled by the raw grid itself. Nothing in
  the class keeps the rows at one length: \<open>Grid(grid_t)\<close> accepts any vector of rows.

  The source computes with \<open>int\<close>. The model uses unbounded integers: sizes, indices and
  offsets are taken to stay below \<open>2 ^ 31\<close>, where the C++ arithmetic of the functions
  modelled here does not wrap. Conversions between \<open>int\<close> and \<open>size_t\<close> that do matter
  (a negative size handed to a vector, the padding count of the loader) are written out.
\<close>

type_synonym row_t = "char list"

type_synonym grid_t = "row_t list"

datatype GridAlignment = none | center | top_left | top_right | bottom_left | bottom_right

text \<open>
  How a call can fail. \<open>LengthError\<close> is the \<open>std::length_error\<close> a vector throws when it
  is asked for more than \<open>max_size()\<close> elements, \<open>FileNotFound\<close> the \<open>exit(1)\<close> of the
  loader. The other three are undefined behaviour after which the model says nothing
  about the program: \<open>EmptyGrid\<close> is the access to the first row of a vector without
  rows (\<open>grid[0]\<close> in \<open>Grid::width\<close>, \<open>*grid.begin()\<close> in the loader), \<open>OutOfRange\<close> a
  store outside a vector, \<open>DivideByZero\<close> an integer division by zero.
\<close>

datatype error = LengthError | FileNotFound | EmptyGrid | OutOfRange | DivideByZero

record GameOfLife =
  grid :: grid_t
  next_grid :: grid_t
  particle :: char
  stale :: bool

definition NUM_THREADS :: int where
  "NUM_THREADS = 4"

subsection \<open>Loops\<close>

text \<open>
  A \<open>for\<close> loop whose body may fail: the state is threaded through the iterations and
  the first failure ends the loop. \<open>for (int i = a; i < b; i++)\<close> is
  \<open>for_each [a..b - 1]\<close>.
\<close>

primrec for_each :: "'a list \<Rightarrow> ('a \<Rightarrow> 's \<Rightarrow> error + 's) \<Rightarrow> 's \<Rightarrow> error + 's" where
  "for_each [] body s = Inr s"
| "for_each (x # xs) body s =
     (case body x s of Inl e \<Rightarrow> Inl e | Inr s' \<Rightarrow> for_each xs body s')"

subsection \<open>Grid accessors\<close>

definition height :: "grid_t \<Rightarrow> int" where
  "height g = int (length g)"

definition width :: "grid_t \<Rightarrow> error + int" where
  "width g = (case g of [] \<Rightarrow> Inl EmptyGrid | r # _ \<Rightarrow> Inr (int (length r)))"

text \<open>
  \<open>grid[i][j]\<close> as a value. \<open>std::vector::operator[]\<close> does not check its index, and the
  compiled program does not stop at a read outside a row: it gets the byte stored at that
  address. The model takes what such a read yields as the parameter \<open>oob\<close>, a function
  of the coordinates, so that every statement proved for all \<open>oob\<close> holds whatever the
  memory holds; \<open>in_range\<close> says which coordinates are inside the grid.
\<close>

definition in_range :: "grid_t \<Rightarrow> int \<Rightarrow> int \<Rightarrow> bool" where
  "in_range g i j \<longleftrightarrow> 0 \<le> i \<and> i < height g \<and> 0 \<le> j \<and> j < int (length (g ! nat i))"

definition cell_at :: "(int \<Rightarrow> int \<Rightarrow> char) \<Rightarrow> grid_t \<Rightarrow> int \<Rightarrow> int \<Rightarrow> char" where
  "cell_at oob g i j = (if in_range g i j then g ! nat i ! nat j else oob i j)"

text \<open>\<open>grid[i][j] = v\<close>. A store outside the grid is a failure of the model.\<close>

definition write_cell :: "grid_t \<Rightarrow> int \<Rightarrow> int \<Rightarrow> char \<Rightarrow> error + grid_t" where
  "write_cell g i j v =
     (if in_range g i j then Inr (g[nat i := (g ! nat i)[nat j := v]]) else Inl OutOfRange)"

section \<open>Counting neighbours\<close>

text \<open>
  \<open>GameOfLife::check_neighbors\<close>. The loop is modelled once, by \<open>scan_neighbors\<close>, with
  two accumulators: \<open>count\<close>, as in the source, and the list of the coordinates at which
  \<open>grid[i][j]\<close> is evaluated, in the order of evaluation. The guard of the inner loop is
  the source's \<open>j < 0 || i >= grid.width()\<close>.
\<close>

definition scan_neighbors ::
  "(int \<Rightarrow> int \<Rightarrow> char) \<Rightarrow> grid_t \<Rightarrow> char \<Rightarrow> int \<Rightarrow> int \<Rightarrow> error + int \<times> (int \<times> int) list" where
  "scan_neighbors oob g p x y =
     for_each [x - 1..x + 1] (\<lambda>i acc.
       if i < 0 \<or> i \<ge> height g then Inr acc
       else for_each [y - 1..y + 1] (\<lambda>j (count, reads).
         case width g of
           Inl e \<Rightarrow> Inl e
         | Inr w \<Rightarrow>
             if j < 0 \<or> i \<ge> w then Inr (count, reads)
             else if i \<noteq> x \<or> j \<noteq> y then
               (if cell_at oob g i j = p then Inr (count + 1, reads @ [(i, j)])
                else Inr (count, reads @ [(i, j)]))
             else Inr (count, reads)) acc) (0, [])"

definition check_neighbors ::
  "(int \<Rightarrow> int \<Rightarrow> char) \<Rightarrow> grid_t \<Rightarrow> char \<Rightarrow> int \<Rightarrow> int \<Rightarrow> error + int" where
  "check_neighbors oob g p x y = map_sum id fst (scan_neighbors oob g p x y)"

definition neighbor_reads :: "grid_t \<Rightarrow> int \<Rightarrow> int \<Rightarrow> error + (int \<times> int) list" where
  "neighbor_reads g x y = map_sum id snd (scan_neighbors (\<lambda>_ _. CHR '' '') g CHR '' '' x y)"

text \<open>
  What the specification asks of the count: the alive cells among the adjacent
  coordinates that lie within the grid, each once.
\<close>

definition adjacent :: "int \<Rightarrow> int \<Rightarrow> (int \<times> int) list" where
  "adjacent x y =
     [(x - 1, y - 1), (x - 1, y), (x - 1, y + 1), (x, y - 1), (x, y + 1),
      (x + 1, y - 1), (x + 1, y), (x + 1, y + 1)]"

definition alive_neighbors :: "grid_t \<Rightarrow> char \<Rightarrow> int \<Rightarrow> int \<Rightarrow> int" where
  "alive_neighbors g p x y =
     int (length (filter (\<lambda>(i, j). in_range g i j \<and> g ! nat i ! nat j = p) (adjacent x y)))"

section \<open>One generation\<close>

text \<open>
  The body of the two loops of \<open>GameOfLife::check\<close> and of \<open>GameOfLife::check_bounded\<close>,
  which is the same text in both: count the neighbours of \<open>(i, j)\<close>, read \<open>grid[i][j]\<close>,
  store the new symbol in \<open>next_grid[i][j]\<close>.
\<close>

definition store_next :: "GameOfLife \<Rightarrow> int \<Rightarrow> int \<Rightarrow> char \<Rightarrow> error + GameOfLife" where
  "store_next s i j v =
     (case write_cell (next_grid s) i j v of
        Inl e \<Rightarrow> Inl e
      | Inr ng \<Rightarrow> Inr (s\<lparr>next_grid := ng\<rparr>))"

definition check_cell ::
  "(int \<Rightarrow> int \<Rightarrow> char) \<Rightarrow> int \<Rightarrow> int \<Rightarrow> GameOfLife \<Rightarrow> error + GameOfLife" where
  "check_cell oob i j s =
     (case check_neighbors oob (grid s) (particle s) i j of
        Inl e \<Rightarrow> Inl e
      | Inr count \<Rightarrow>
          if cell_at oob (grid s) i j = particle s then
            (if count < 2 \<or> count > 3 then store_next s i j CHR '' ''
             else store_next s i j (particle s))
          else if cell_at oob (grid s) i j = CHR '' '' \<and> count = 3 then
            store_next s i j (particle s)
          else store_next s i j CHR '' '')"

definition check :: "(int \<Rightarrow> int \<Rightarrow> char) \<Rightarrow> GameOfLife \<Rightarrow> error + GameOfLife" where
  "check oob s =
     for_each [0..height (grid s) - 1] (\<lambda>i s.
       case width (grid s) of
         Inl e \<Rightarrow> Inl e
       | Inr w \<Rightarrow> for_each [0..w - 1] (\<lambda>j s. check_cell oob i j s) s) s"

definition check_bounded ::
  "(int \<Rightarrow> int \<Rightarrow> char) \<Rightarrow> int \<Rightarrow> int \<Rightarrow> int \<Rightarrow> int \<Rightarrow> GameOfLife \<Rightarrow> error + GameOfLife" where
  "check_bounded oob height' width' start_x start_y s =
     for_each [start_x..start_x + height' - 1] (\<lambda>i s.
       for_each [start_y..start_y + width' - 1] (\<lambda>j s. check_cell oob i j s) s) s"

text \<open>
  \<open>GameOfLife::check_multithread\<close>. \<open>bands\<close> is the partitioner: the list, in the order
  of the loop, of the arguments \<open>(height, width, start_x, start_y)\<close> that the threads
  pass to \<open>check_bounded\<close>. The threads read \<open>grid\<close> and store into \<open>next_grid\<close> only;
  the model runs them to completion one after the other, in the order they are started.
  \<open>/\<close> and \<open>%\<close> of C++ truncate: \<open>sdiv\<close> and \<open>smod\<close>. A negative \<open>num_threads\<close> makes
  \<open>threads.reserve\<close> throw, and \<open>num_threads = 0\<close> divides by zero.
\<close>

definition bands :: "int \<Rightarrow> int \<Rightarrow> int \<Rightarrow> (int \<times> int \<times> int \<times> int) list" where
  "bands h w num_threads =
     (let step_x = h sdiv num_threads;
          rest_x = h smod num_threads;
          step_y = w
      in map (\<lambda>i. if i \<noteq> num_threads - 1 then (step_x, step_y, i * step_x, 0)
                   else (step_x + rest_x, step_y, i * step_x, 0))
           [0..num_threads - 1])"

definition run_bands ::
  "(int \<Rightarrow> int \<Rightarrow> char) \<Rightarrow> (int \<times> int \<times> int \<times> int) list \<Rightarrow> GameOfLife \<Rightarrow> error + GameOfLife" where
  "run_bands oob bs s =
     for_each bs (\<lambda>(height', width', start_x, start_y) s.
       check_bounded oob height' width' start_x start_y s) s"

definition check_multithread ::
  "(int \<Rightarrow> int \<Rightarrow> char) \<Rightarrow> int \<Rightarrow> GameOfLife \<Rightarrow> error + GameOfLife" where
  "check_multithread oob num_threads s =
     (if num_threads < 0 then Inl LengthError
      else if num_threads = 0 then Inl DivideByZero
      else case width (grid s) of
             Inl e \<Rightarrow> Inl e
           | Inr w \<Rightarrow> run_bands oob (bands (height (grid s)) w num_threads) s)"

text \<open>\<open>GameOfLife::update\<close>: \<open>grid = next_grid\<close> is a copy assignment.\<close>

definition update :: "(int \<Rightarrow> int \<Rightarrow> char) \<Rightarrow> GameOfLife \<Rightarrow> error + GameOfLife" where
  "update oob s =
     (case check_multithread oob NUM_THREADS s of
        Inl e \<Rightarrow> Inl e
      | Inr s' \<Rightarrow>
          if grid s' = next_grid s' then Inr (s'\<lparr>stale := True\<rparr>)
          else Inr (s'\<lparr>grid := next_grid s'\<rparr>))"

text \<open>
  \<open>n\<close> calls of \<open>update\<close> one after the other; the memory outside the rows may differ
  from one call to the next, so call \<open>k\<close> reads it through \<open>oobs k\<close>.
\<close>

primrec updates :: "(nat \<Rightarrow> int \<Rightarrow> int \<Rightarrow> char) \<Rightarrow> nat \<Rightarrow> GameOfLife \<Rightarrow> error + GameOfLife" where
  "updates oobs 0 s = Inr s"
| "updates oobs (Suc n) s =
     (case updates oobs n s of Inl e \<Rightarrow> Inl e | Inr s' \<Rightarrow> update (oobs n) s')"

section \<open>Constructing grids\<close>

text \<open>
  \<open>Grid::Grid(int, int)\<close>. \<open>grid_t(height)\<close> and \<open>row_t(length, ' ')\<close> convert their
  \<open>int\<close> argument to \<open>size_t\<close>: a negative one becomes a size above \<open>max_size()\<close> and
  the vector throws. The rows are made in a loop over the rows of \<open>grid\<close>, which does
  not run when there is no row.
\<close>

definition new_row :: "int \<Rightarrow> error + row_t" where
  "new_row length' = (if length' < 0 then Inl LengthError else Inr (replicate (nat length') CHR '' ''))"

primrec fill_rows :: "row_t list \<Rightarrow> int \<Rightarrow> error + grid_t" where
  "fill_rows [] length' = Inr []"
| "fill_rows (row # rows) length' =
     (case new_row length' of
        Inl e \<Rightarrow> Inl e
      | Inr row' \<Rightarrow>
          (case fill_rows rows length' of Inl e \<Rightarrow> Inl e | Inr rows' \<Rightarrow> Inr (row' # rows')))"

definition Grid_new :: "int \<Rightarrow> int \<Rightarrow> error + grid_t" where
  "Grid_new height' length' =
     (if height' < 0 then Inl LengthError else fill_rows (replicate (nat height') []) length')"

text \<open>
  \<open>Grid::Grid(int, int, Grid&&, GridAlignment)\<close>. The \<open>switch\<close> gives \<open>start_x\<close> and
  \<open>start_y\<close> no value when the alignment is \<open>none\<close>; the loops then read the two
  uninitialised variables, whose values are the parameter \<open>uninit\<close> of the model.
\<close>

definition start_offsets ::
  "int \<times> int \<Rightarrow> grid_t \<Rightarrow> grid_t \<Rightarrow> GridAlignment \<Rightarrow> error + int \<times> int" where
  "start_offsets uninit this other align =
     (case align of
        center \<Rightarrow>
          (case width this of
             Inl e \<Rightarrow> Inl e
           | Inr w \<Rightarrow>
               (case width other of
                  Inl e \<Rightarrow> Inl e
                | Inr ow \<Rightarrow>
                    Inr ((height this sdiv 2) - (height other sdiv 2),
                         (w sdiv 2) - (ow sdiv 2))))
      | top_left \<Rightarrow> Inr (0, 0)
      | top_right \<Rightarrow>
          (case width this of
             Inl e \<Rightarrow> Inl e
           | Inr w \<Rightarrow>
               (case width other of Inl e \<Rightarrow> Inl e | Inr ow \<Rightarrow> Inr (0, w - ow)))
      | bottom_left \<Rightarrow> Inr (height this - height other, 0)
      | bottom_right \<Rightarrow>
          (case width this of
             Inl e \<Rightarrow> Inl e
           | Inr w \<Rightarrow>
               (case width other of
                  Inl e \<Rightarrow> Inl e
                | Inr ow \<Rightarrow> Inr (height this - height other, w - ow)))
      | none \<Rightarrow> Inr uninit)"

definition embed_cell ::
  "(int \<Rightarrow> int \<Rightarrow> char) \<Rightarrow> grid_t \<Rightarrow> int \<Rightarrow> int \<Rightarrow> int \<Rightarrow> int \<Rightarrow> grid_t \<Rightarrow> error + grid_t" where
  "embed_cell oob other start_x start_y i j g =
     (if i < 0 \<or> i \<ge> height g then Inr g
      else case width g of
             Inl e \<Rightarrow> Inl e
           | Inr w \<Rightarrow>
               if j < 0 \<or> j \<ge> w then Inr g
               else write_cell g i j (cell_at oob other (i - start_x) (j - start_y)))"

definition Grid_embed ::
  "(int \<Rightarrow> int \<Rightarrow> char) \<Rightarrow> int \<times> int \<Rightarrow> int \<Rightarrow> int \<Rightarrow> grid_t \<Rightarrow> GridAlignment \<Rightarrow> error + grid_t" where
  "Grid_embed oob uninit height' length' other align =
     (case Grid_new height' length' of
        Inl e \<Rightarrow> Inl e
      | Inr g \<Rightarrow>
          (case start_offsets uninit g other align of
             Inl e \<Rightarrow> Inl e
           | Inr (start_x, start_y) \<Rightarrow>
               for_each [start_x..start_x + height other - 1] (\<lambda>i g.
                 case width other of
                   Inl e \<Rightarrow> Inl e
                 | Inr ow \<Rightarrow>
                     for_each [start_y..start_y + ow - 1]
                       (\<lambda>j g. embed_cell oob other start_x start_y i j g) g) g))"

section \<open>The seed loader\<close>

text \<open>
  \<open>std::getline\<close> in a loop: a line ends at a newline or at the end of the file, and no
  line is produced when the end of the file is reached without a character read.
\<close>

primrec getlines :: "string \<Rightarrow> string \<Rightarrow> string list" where
  "getlines [] line = (if line = [] then [] else [line])"
| "getlines (c # cs) line =
     (if c = CHR 0x0A then line # getlines cs [] else getlines cs (line @ [c]))"

text \<open>
  \<open>load_grid(const std::string&)\<close>. The source calls \<open>std::max\<close> on the two iterators
  \<open>grid.begin()\<close> and \<open>grid.end()\<close> with a comparison that dereferences both, and takes
  the size of the row the result points to. \<open>std::max(a, b, comp)\<close> is
  \<open>comp(a, b) ? b : a\<close>. Dereferencing \<open>grid.end()\<close> is undefined; \<open>end_size\<close> is the
  size found there. When the file has no line the vector has no storage, \<open>grid.begin()\<close>
  is the null pointer, and the comparison dereferences it: the program stops there. The
  result is converted to \<open>int\<close>, and back to \<open>size_t\<close> where it meets \<open>row.size()\<close>.
  \<open>row.insert\<close> throws when the count exceeds what the row can still take.
\<close>

definition to_int :: "int \<Rightarrow> int" where
  "to_int k = (k + 2 ^ 31) mod 2 ^ 32 - 2 ^ 31"

definition to_size_t :: "int \<Rightarrow> int" where
  "to_size_t k = k mod 2 ^ 64"

definition row_max_size :: int where
  "row_max_size = 2 ^ 63 - 1"

definition max_length :: "nat \<Rightarrow> grid_t \<Rightarrow> error + int" where
  "max_length end_size g =
     (case g of
        [] \<Rightarrow> Inl EmptyGrid
      | row # _ \<Rightarrow>
          (let begin_size = length row
           in Inr (to_int (int (if begin_size > end_size then end_size else begin_size)))))"

definition pad_row :: "int \<Rightarrow> row_t \<Rightarrow> error + row_t" where
  "pad_row max_len row =
     (if int (length row) < to_size_t max_len then
        (let n = to_size_t (int (length row) - to_size_t max_len)
         in if n > row_max_size - int (length row) then Inl LengthError
            else Inr (row @ replicate (nat n) CHR '' ''))
      else Inr row)"

primrec pad_rows :: "int \<Rightarrow> grid_t \<Rightarrow> error + grid_t" where
  "pad_rows max_len [] = Inr []"
| "pad_rows max_len (row # rows) =
     (case pad_row max_len row of
        Inl e \<Rightarrow> Inl e
      | Inr row' \<Rightarrow>
          (case pad_rows max_len rows of Inl e \<Rightarrow> Inl e | Inr rows' \<Rightarrow> Inr (row' # rows')))"

definition load_grid :: "nat \<Rightarrow> string option \<Rightarrow> error + grid_t" where
  "load_grid end_size file =
     (case file of
        None \<Rightarrow> Inl FileNotFound
      | Some content \<Rightarrow>
          (let g = getlines content []
           in case max_length end_size g of
                Inl e \<Rightarrow> Inl e
              | Inr max_len \<Rightarrow> pad_rows max_len g))"

section \<open>Constructing the engine\<close>

definition replace_particle :: "char \<Rightarrow> GameOfLife \<Rightarrow> GameOfLife" where
  "replace_particle p s =
     s\<lparr>particle := p,
       grid := map (map (\<lambda>c. if c \<noteq> CHR '' '' then p else c)) (grid s)\<rparr>"

text \<open>
  \<open>GameOfLife(int, int, char)\<close> and \<open>GameOfLife(Grid, char)\<close>. The member \<open>particle\<close>
  has no value before \<open>replace_particle\<close> sets it; \<open>stale\<close> starts \<open>false\<close>.
\<close>

definition GameOfLife_xy :: "int \<Rightarrow> int \<Rightarrow> char \<Rightarrow> error + GameOfLife" where
  "GameOfLife_xy x y p =
     (case Grid_new x y of
        Inl e \<Rightarrow> Inl e
      | Inr g \<Rightarrow>
          (case Grid_new x y of
             Inl e \<Rightarrow> Inl e
           | Inr ng \<Rightarrow>
               Inr (replace_particle p
                      \<lparr>grid = g, next_grid = ng, particle = p, stale = False\<rparr>)))"

definition GameOfLife_grid :: "grid_t \<Rightarrow> char \<Rightarrow> error + GameOfLife" where
  "GameOfLife_grid start_grid p =
     (case width start_grid of
        Inl e \<Rightarrow> Inl e
      | Inr w \<Rightarrow>
          (case Grid_new (height start_grid) w of
             Inl e \<Rightarrow> Inl e
           | Inr ng \<Rightarrow>
               Inr (replace_particle p
                      \<lparr>grid = start_grid, next_grid = ng, particle = p, stale = False\<rparr>)))"

section \<open>Vocabulary of the statements\<close>

text \<open>
  The definitions below are not code of the program: they name what the theorems speak
  about.
\<close>

subsection \<open>Grids\<close>

text \<open>
  \<open>shape\<close> is the list of the row lengths of a grid, and a grid is \<open>rectangular\<close>, as
  the data model of the specification has it, when every row is as long as the first.
  \<open>painted f g0 A g\<close> says that \<open>g\<close> is \<open>g0\<close> with the cells at the coordinates in \<open>A\<close>
  replaced by the values \<open>f\<close> gives there and every other cell as it was. \<open>blank_grid\<close>
  is the blank canvas of a given height and length, and \<open>over_alphabet p\<close> holds of a
  grid whose cells are all \<open>p\<close> or blank.
\<close>

definition shape :: "grid_t \<Rightarrow> nat list" where
  "shape g = map length g"

definition rectangular :: "grid_t \<Rightarrow> bool" where
  "rectangular g \<longleftrightarrow> (\<forall>row\<in>set g. length row = length (hd g))"

definition painted ::
  "(int \<Rightarrow> int \<Rightarrow> char) \<Rightarrow> grid_t \<Rightarrow> (int \<times> int) set \<Rightarrow> grid_t \<Rightarrow> bool" where
  "painted f g0 A g \<longleftrightarrow>
     shape g = shape g0 \<and>
     (\<forall>a b. in_range g0 a b \<longrightarrow>
        g ! nat a ! nat b = (if (a, b) \<in> A then f a b else g0 ! nat a ! nat b))"

definition blank_grid :: "int \<Rightarrow> int \<Rightarrow> grid_t" where
  "blank_grid h l = replicate (nat h) (replicate (nat l) CHR '' '')"

definition over_alphabet :: "char \<Rightarrow> grid_t \<Rightarrow> bool" where
  "over_alphabet p g \<longleftrightarrow> (\<forall>row\<in>set g. \<forall>c\<in>set row. c = p \<or> c = CHR '' '')"

subsection \<open>The neighbour count\<close>

text \<open>
  \<open>neighbor_count\<close> is the number \<open>check_neighbors\<close> returns. For its closed form:
  whether the symbol read at \<open>(i, j)\<close> is the particle, as \<open>check_neighbors\<close> reads it
  (through \<open>oob\<close> outside the rows) and as the specification counts it (inside the grid
  only), and the part of the count that one row of the neighbourhood contributes in the
  loop of \<open>check_neighbors\<close>.
\<close>

definition neighbor_count :: "(int \<Rightarrow> int \<Rightarrow> char) \<Rightarrow> grid_t \<Rightarrow> char \<Rightarrow> int \<Rightarrow> int \<Rightarrow> int" where
  "neighbor_count oob g p x y = (case check_neighbors oob g p x y of Inl e \<Rightarrow> 0 | Inr c \<Rightarrow> c)"

definition alive_at :: "(int \<Rightarrow> int \<Rightarrow> char) \<Rightarrow> grid_t \<Rightarrow> char \<Rightarrow> int \<Rightarrow> int \<Rightarrow> int" where
  "alive_at oob g p i j = (if cell_at oob g i j = p then 1 else 0)"

definition alive_in :: "grid_t \<Rightarrow> char \<Rightarrow> int \<Rightarrow> int \<Rightarrow> int" where
  "alive_in g p i j = (if in_range g i j \<and> g ! nat i ! nat j = p then 1 else 0)"

definition row_count ::
  "(int \<Rightarrow> int \<Rightarrow> char) \<Rightarrow> grid_t \<Rightarrow> char \<Rightarrow> int \<Rightarrow> int \<Rightarrow> int \<Rightarrow> int \<Rightarrow> int" where
  "row_count oob g p w x y i =
     (if i < 0 \<or> i \<ge> height g \<or> i \<ge> w then 0
      else (if 0 \<le> y - 1 then alive_at oob g p i (y - 1) else 0)
           + (if i \<noteq> x \<and> 0 \<le> y then alive_at oob g p i y else 0)
           + (if 0 \<le> y + 1 then alive_at oob g p i (y + 1) else 0))"

subsection \<open>The pass\<close>

text \<open>
  \<open>rule\<close> is the transition rule in the words of the specification, and \<open>next_symbol\<close>
  the rule applied to a cell of the current grid and its \<open>neighbor_count\<close>.
  \<open>stepped oob s A s'\<close> says that \<open>s'\<close> is \<open>s\<close> with the cells \<open>A\<close> of \<open>next_grid\<close>
  holding their next symbols, and everything else of the state as in \<open>s\<close>. \<open>block\<close> is
  the set of coordinates a call \<open>check_bounded(height, width, start_x, start_y)\<close> visits,
  \<open>band_block\<close> the same for a tuple of arguments, and \<open>cells\<close> the coordinates \<open>check\<close>
  visits: the rows of \<open>grid\<close> and the columns of its first row.
\<close>

definition rule :: "char \<Rightarrow> char \<Rightarrow> int \<Rightarrow> char" where
  "rule p c count =
     (if c = p \<and> (count = 2 \<or> count = 3) then p
      else if c = CHR '' '' \<and> count = 3 then p
      else CHR '' '')"

definition next_symbol :: "(int \<Rightarrow> int \<Rightarrow> char) \<Rightarrow> grid_t \<Rightarrow> char \<Rightarrow> int \<Rightarrow> int \<Rightarrow> char" where
  "next_symbol oob g p i j = rule p (cell_at oob g i j) (neighbor_count oob g p i j)"

definition stepped ::
  "(int \<Rightarrow> int \<Rightarrow> char) \<Rightarrow> GameOfLife \<Rightarrow> (int \<times> int) set \<Rightarrow> GameOfLife \<Rightarrow> bool" where
  "stepped oob s A s' \<longleftrightarrow>
     grid s' = grid s \<and> particle s' = particle s \<and> stale s' = stale s \<and>
     painted (next_symbol oob (grid s) (particle s)) (next_grid s) A (next_grid s')"

definition block :: "int \<Rightarrow> int \<Rightarrow> int \<Rightarrow> int \<Rightarrow> (int \<times> int) set" where
  "block start_x height' start_y width' =
     {start_x..start_x + height' - 1} \<times> {start_y..start_y + width' - 1}"

definition band_block :: "int \<times> int \<times> int \<times> int \<Rightarrow> (int \<times> int) set" where
  "band_block b = (case b of (height', width', start_x, start_y) \<Rightarrow> block start_x height' start_y width')"

definition cells :: "GameOfLife \<Rightarrow> (int \<times> int) set" where
  "cells s = {0..<height (grid s)} \<times> {0..<int (length (hd (grid s)))}"

text \<open>
  What the constructors of \<open>GameOfLife\<close> establish: the current grid has a row, and
  \<open>next_grid\<close> has as many rows as \<open>grid\<close>, each as long as the first row of \<open>grid\<close>.
\<close>

definition engine_ok :: "GameOfLife \<Rightarrow> bool" where
  "engine_ok s \<longleftrightarrow>
     grid s \<noteq> [] \<and>
     shape (next_grid s) = replicate (length (grid s)) (length (hd (grid s)))"

subsection \<open>The partition\<close>

text \<open>
  The rows and the columns of a band, and the arguments of the call of thread \<open>i\<close>
  written with \<open>div\<close> and \<open>mod\<close>.
\<close>

definition band_rows :: "int \<times> int \<times> int \<times> int \<Rightarrow> int set" where
  "band_rows b = (case b of (height', width', start_x, start_y) \<Rightarrow> {start_x..<start_x + height'})"

definition band_cols :: "int \<times> int \<times> int \<times> int \<Rightarrow> int set" where
  "band_cols b = (case b of (height', width', start_x, start_y) \<Rightarrow> {start_y..<start_y + width'})"

definition band :: "int \<Rightarrow> int \<Rightarrow> int \<Rightarrow> int \<Rightarrow> int \<times> int \<times> int \<times> int" where
  "band h w n i =
     (if i \<noteq> n - 1 then (h div n, w, i * (h div n), 0)
      else (h div n + h mod n, w, i * (h div n), 0))"

subsection \<open>Statements of the specification\<close>

text \<open>
  \<open>update\<close> as the specification words it: when the next generation differs from the
  current grid, the two grids are swapped and the flag stays \<open>false\<close>.
\<close>

definition update_as_claimed :: "(int \<Rightarrow> int \<Rightarrow> char) \<Rightarrow> GameOfLife \<Rightarrow> error + GameOfLife" where
  "update_as_claimed oob s =
     (case check_multithread oob NUM_THREADS s of
        Inl e \<Rightarrow> Inl e
      | Inr s' \<Rightarrow>
          if next_grid s' = grid s' then Inr (s'\<lparr>stale := True\<rparr>)
          else Inr (s'\<lparr>grid := next_grid s', next_grid := grid s', stale := False\<rparr>))"

text \<open>
  The offsets of the alignments as the specification gives them, per axis, with the
  truncating division of C++.
\<close>

definition offset_row :: "GridAlignment \<Rightarrow> int \<Rightarrow> int \<Rightarrow> int" where
  "offset_row align target_height source_height =
     (case align of
        center \<Rightarrow> target_height sdiv 2 - source_height sdiv 2
      | top_left \<Rightarrow> 0
      | top_right \<Rightarrow> 0
      | bottom_left \<Rightarrow> target_height - source_height
      | bottom_right \<Rightarrow> target_height - source_height
      | none \<Rightarrow> 0)"

definition offset_col :: "GridAlignment \<Rightarrow> int \<Rightarrow> int \<Rightarrow> int" where
  "offset_col align target_width source_width =
     (case align of
        center \<Rightarrow> target_width sdiv 2 - source_width sdiv 2
      | top_left \<Rightarrow> 0
      | top_right \<Rightarrow> target_width - source_width
      | bottom_left \<Rightarrow> 0
      | bottom_right \<Rightarrow> target_width - source_width
      | none \<Rightarrow> 0)"

subsection \<open>Concrete inputs\<close>

text \<open>
  A memory that holds a blank at every address outside the rows, in one generation and
  in every generation; engines on the grid of one alive cell, on a blinker in a grid of
  three rows and three columns, and on a grid of three rows and two columns, higher than
  wide; a seed file of the two lines \<open>ab\<close> and \<open>abc\<close>.
\<close>

definition blank_memory :: "int \<Rightarrow> int \<Rightarrow> char" where
  "blank_memory i j = CHR '' ''"

definition blank_memories :: "nat \<Rightarrow> int \<Rightarrow> int \<Rightarrow> char" where
  "blank_memories n = blank_memory"

definition lone_cell :: GameOfLife where
  "lone_cell = \<lparr>grid = [''*''], next_grid = ['' ''], particle = CHR ''*'', stale = False\<rparr>"

definition blinker :: GameOfLife where
  "blinker = \<lparr>grid = [''   '', ''***'', ''   ''], next_grid = [''   '', ''   '', ''   ''],
               particle = CHR ''*'', stale = False\<rparr>"

definition tall :: GameOfLife where
  "tall = \<lparr>grid = [''  '', ''**'', '' *''], next_grid = [''  '', ''  '', ''  ''],
            particle = CHR ''*'', stale = False\<rparr>"

definition seed_file :: "string" where
  "seed_file = ''ab'' @ [CHR 0x0A] @ ''abc'' @ [CHR 0x0A]"

section \<open>Properties of the model\<close>

subsection \<open>Loops\<close>

lemma for_each_append:
  "for_each (xs @ ys) body s =
     (case for_each xs body s of Inl e \<Rightarrow> Inl e | Inr s' \<Rightarrow> for_each ys body s')"
  by (induction xs arbitrary: s) (auto split: sum.splits)

lemma for_each_invariant:
  assumes "P A s"
    and "\<And>x B t. x \<in> set xs \<Longrightarrow> P B t \<Longrightarrow> \<exists>t'. body x t = Inr t' \<and> P (B \<union> F x) t'"
  shows "\<exists>s'. for_each xs body s = Inr s' \<and> P (A \<union> (\<Union>x\<in>set xs. F x)) s'"
  using assms
proof (induction xs arbitrary: A s)
  case Nil
  then show ?case by simp
next
  case (Cons x xs)
  from Cons.prems obtain t where t: "body x s = Inr t" "P (A \<union> F x) t"
    by (meson list.set_intros(1))
  have "\<exists>s'. for_each xs body t = Inr s' \<and> P ((A \<union> F x) \<union> (\<Union>x\<in>set xs. F x)) s'"
    by (rule Cons.IH [OF t(2)]) (use Cons.prems(2) in auto)
  then show ?case using t(1) by (simp add: Un_assoc)
qed

lemma for_each_total:
  assumes "\<And>x t. x \<in> set xs \<Longrightarrow> \<exists>t'. body x t = Inr t'"
  shows "\<exists>s'. for_each xs body s = Inr s'"
  using assms
proof (induction xs arbitrary: s)
  case Nil
  then show ?case by simp
next
  case (Cons x xs)
  then obtain t where "body x s = Inr t" by (meson list.set_intros(1))
  moreover have "\<exists>s'. for_each xs body t = Inr s'"
    by (rule Cons.IH) (use Cons.prems in auto)
  ultimately show ?case by simp
qed

lemma for_each_pure:
  assumes "\<And>x s. body x s = Inr (f x s)"
  shows "for_each xs body s = Inr (fold f xs s)"
  by (induction xs arbitrary: s) (simp_all add: assms)

lemma for_each_three:
  "for_each [a, b, c] body s =
     (case body a s of Inl e \<Rightarrow> Inl e | Inr s1 \<Rightarrow>
       (case body b s1 of Inl e \<Rightarrow> Inl e | Inr s2 \<Rightarrow> body c s2))"
  by (simp split: sum.splits)

lemma upto3: "[x - 1..x + 1] = [x - 1, x, x + (1::int)]"
  by (simp add: upto.simps)

subsection \<open>Grids and stores\<close>

lemma in_range_shape: "shape g = shape g' \<Longrightarrow> in_range g = in_range g'"
  unfolding shape_def in_range_def height_def fun_eq_iff
  by (metis length_map nat_less_iff nth_map)

lemma in_range_nat:
  "in_range g i j \<Longrightarrow> nat i < length g \<and> nat j < length (g ! nat i)"
  unfolding in_range_def height_def by linarith

lemma painted_empty: "painted f g {} g"
  by (simp add: painted_def)

lemma painted_write:
  assumes "painted f g0 A g" and "in_range g0 i j"
  shows "\<exists>g'. write_cell g i j (f i j) = Inr g' \<and> painted f g0 (insert (i, j) A) g'"
proof -
  have sh: "shape g = shape g0" using assms(1) by (simp add: painted_def)
  then have ir: "in_range g = in_range g0" by (rule in_range_shape)
  let ?g' = "g[nat i := (g ! nat i)[nat j := f i j]]"
  have w: "write_cell g i j (f i j) = Inr ?g'"
    using assms(2) ir by (simp add: write_cell_def)
  have "length g = length g0" using sh by (metis length_map shape_def)
  then have "nat i < length g" using in_range_nat [OF assms(2)] by simp
  then have "(map length g)[nat i := length (g ! nat i)] = map length g"
    by (metis list_update_id nth_map)
  then have sh': "shape ?g' = shape g0"
    using sh by (simp add: shape_def map_update)
  have "?g' ! nat a ! nat b = (if (a, b) \<in> insert (i, j) A then f a b else g0 ! nat a ! nat b)"
    if "in_range g0 a b" for a b
  proof -
    have ab: "in_range g a b" using that ir by simp
    have old: "g ! nat a ! nat b = (if (a, b) \<in> A then f a b else g0 ! nat a ! nat b)"
      using assms(1) that by (simp add: painted_def)
    have ni: "nat i < length g" "nat j < length (g ! nat i)"
      using in_range_nat [of g i j] assms(2) ir by simp_all
    have nb: "nat a < length g" "nat b < length (g ! nat a)"
      using in_range_nat [OF ab] by simp_all
    show ?thesis
    proof (cases "a = i")
      case True
      show ?thesis
      proof (cases "b = j")
        case True
        then show ?thesis using \<open>a = i\<close> ni by simp
      next
        case False
        then have "nat b \<noteq> nat j" using ab assms(2) by (auto simp: in_range_def)
        then show ?thesis using \<open>a = i\<close> False ni old by simp
      qed
    next
      case False
      then have "nat a \<noteq> nat i" using ab assms(2) by (auto simp: in_range_def)
      then show ?thesis using old False by simp
    qed
  qed
  then show ?thesis using w sh' by (auto simp: painted_def)
qed

lemma painted_skip:
  assumes "painted f g0 A g" and "\<not> in_range g0 i j"
  shows "painted f g0 (insert (i, j) A) g"
  using assms by (auto simp: painted_def)

lemma grid_eqI:
  assumes "shape g = shape g'"
    and "\<And>a b. in_range g a b \<Longrightarrow> g ! nat a ! nat b = g' ! nat a ! nat b"
  shows "g = g'"
proof (rule nth_equalityI)
  show len: "length g = length g'" using assms(1) by (metis length_map shape_def)
  fix a assume a: "a < length g"
  have la: "length (g ! a) = length (g' ! a)"
    using assms(1) a len by (metis nth_map shape_def)
  show "g ! a = g' ! a"
  proof (rule nth_equalityI)
    show "length (g ! a) = length (g' ! a)" by (rule la)
    fix b assume b: "b < length (g ! a)"
    have "in_range g (int a) (int b)" using a b by (simp add: in_range_def height_def)
    from assms(2) [OF this] show "g ! a ! b = g' ! a ! b" by simp
  qed
qed

lemma painted_unique:
  assumes "painted f g0 A g" and "painted f g0 B g'"
    and "\<And>a b. in_range g0 a b \<Longrightarrow> (a, b) \<in> A \<longleftrightarrow> (a, b) \<in> B"
  shows "g = g'"
proof (rule grid_eqI)
  show "shape g = shape g'" using assms by (simp add: painted_def)
  fix a b assume "in_range g a b"
  then have "in_range g0 a b" using assms(1) in_range_shape by (metis painted_def)
  then show "g ! nat a ! nat b = g' ! nat a ! nat b"
    using assms by (simp add: painted_def)
qed

lemma rectangular_nth:
  "rectangular g \<Longrightarrow> 0 \<le> i \<Longrightarrow> i < height g \<Longrightarrow> length (g ! nat i) = length (hd g)"
  by (simp add: rectangular_def height_def)

lemma rectangular_shape:
  "rectangular g \<longleftrightarrow> shape g = replicate (length g) (length (hd g))"
proof
  assume "rectangular g"
  then show "shape g = replicate (length g) (length (hd g))"
    unfolding shape_def rectangular_def by (intro nth_equalityI) auto
next
  assume a: "shape g = replicate (length g) (length (hd g))"
  show "rectangular g"
    unfolding rectangular_def
  proof
    fix row assume "row \<in> set g"
    then obtain k where k: "k < length g" "row = g ! k" by (metis in_set_conv_nth)
    then have "length row = shape g ! k" by (simp add: shape_def)
    then show "length row = length (hd g)" using a k by simp
  qed
qed

lemma rectangular_same_shape:
  assumes "shape g = shape g'" and "rectangular g'"
  shows "rectangular g"
proof (cases "g = []")
  case True
  then show ?thesis by (simp add: rectangular_def)
next
  case False
  have len: "length g = length g'" using assms(1) by (metis length_map shape_def)
  then have ne: "g' \<noteq> []" using False by auto
  have "hd (shape g) = hd (shape g')" using assms(1) by simp
  then have "length (hd g) = length (hd g')" using False ne by (simp add: shape_def hd_map)
  then show ?thesis using assms len by (simp add: rectangular_shape)
qed

lemma width_nonempty: "g \<noteq> [] \<Longrightarrow> width g = Inr (int (length (hd g)))"
  by (cases g) (simp_all add: width_def)

subsection \<open>The neighbour count\<close>

text \<open>
  \<open>check_neighbors\<close> always returns, and its count is the sum of what the three rows of
  the neighbourhood contribute.
\<close>

lemma scan_neighbors_total: "\<exists>r. scan_neighbors oob g p x y = Inr r"
  unfolding scan_neighbors_def
proof (rule for_each_total)
  fix i and acc :: "int \<times> (int \<times> int) list"
  show "\<exists>t'. (if i < 0 \<or> height g \<le> i then Inr acc
        else for_each [y - 1..y + 1]
              (\<lambda>j (count, reads).
                  case width g of Inl e \<Rightarrow> Inl e
                  | Inr w \<Rightarrow>
                      if j < 0 \<or> w \<le> i then Inr (count, reads)
                      else if i \<noteq> x \<or> j \<noteq> y
                           then if cell_at oob g i j = p then Inr (count + 1, reads @ [(i, j)])
                                else Inr (count, reads @ [(i, j)])
                           else Inr (count, reads))
              acc) = Inr t'"
  proof (cases "i < 0 \<or> height g \<le> i")
    case True
    then show ?thesis by simp
  next
    case False
    then have "g \<noteq> []" by (auto simp: height_def)
    then obtain w where w: "width g = Inr w" by (cases g) (auto simp: width_def)
    have "\<exists>t'. for_each [y - 1..y + 1]
              (\<lambda>j (count, reads).
                  case width g of Inl e \<Rightarrow> Inl e
                  | Inr w \<Rightarrow>
                      if j < 0 \<or> w \<le> i then Inr (count, reads)
                      else if i \<noteq> x \<or> j \<noteq> y
                           then if cell_at oob g i j = p then Inr (count + 1, reads @ [(i, j)])
                                else Inr (count, reads @ [(i, j)])
                           else Inr (count, reads))
              acc = Inr t'"
      by (rule for_each_total) (auto simp: w split: prod.splits)
    then show ?thesis using False by simp
  qed
qed

lemma check_neighbors_total: "check_neighbors oob g p x y = Inr (neighbor_count oob g p x y)"
proof -
  obtain r where "scan_neighbors oob g p x y = Inr r"
    using scan_neighbors_total by blast
  then show ?thesis by (simp add: neighbor_count_def check_neighbors_def)
qed

lemma scan_row:
  assumes "width g = Inr w" and "0 \<le> i" and "i < height g"
  shows "for_each [y - 1..y + 1] (\<lambda>j (count, reads).
         case width g of
           Inl e \<Rightarrow> Inl e
         | Inr w \<Rightarrow>
             if j < 0 \<or> i \<ge> w then Inr (count, reads)
             else if i \<noteq> x \<or> j \<noteq> y then
               (if cell_at oob g i j = p then Inr (count + 1, reads @ [(i, j)])
                else Inr (count, reads @ [(i, j)]))
             else Inr (count, reads)) (c, rs) =
     Inr (if i \<ge> w then (c, rs)
          else (c + (if 0 \<le> y - 1 then alive_at oob g p i (y - 1) else 0)
                  + (if i \<noteq> x \<and> 0 \<le> y then alive_at oob g p i y else 0)
                  + (if 0 \<le> y + 1 then alive_at oob g p i (y + 1) else 0),
                rs @ (if 0 \<le> y - 1 then [(i, y - 1)] else [])
                   @ (if i \<noteq> x \<and> 0 \<le> y then [(i, y)] else [])
                   @ (if 0 \<le> y + 1 then [(i, y + 1)] else [])))"
  unfolding upto3 for_each_three
  by (simp add: assms(1) alive_at_def)

lemma count_Cons:
  "int (length (filter P (a # xs))) = (if P a then 1 else 0) + int (length (filter P xs))"
  by simp

lemma alive_neighbors_sum:
  "alive_neighbors g p x y =
     alive_in g p (x - 1) (y - 1) + alive_in g p (x - 1) y + alive_in g p (x - 1) (y + 1) +
     alive_in g p x (y - 1) + alive_in g p x (y + 1) +
     alive_in g p (x + 1) (y - 1) + alive_in g p (x + 1) y + alive_in g p (x + 1) (y + 1)"
  unfolding alive_neighbors_def adjacent_def count_Cons alive_in_def
  by (simp only: prod.case filter.simps list.size of_nat_0 add_0_right add.assoc)

lemma alive_at_clear:
  assumes "\<And>i j. \<not> in_range g i j \<Longrightarrow> oob i j \<noteq> p"
  shows "alive_at oob g p i j = alive_in g p i j"
  using assms by (auto simp: alive_at_def alive_in_def cell_at_def)

lemma alive_in_outside:
  "j < 0 \<Longrightarrow> alive_in g p i j = 0" "i < 0 \<Longrightarrow> alive_in g p i j = 0"
  "height g \<le> i \<Longrightarrow> alive_in g p i j = 0"
  by (simp_all add: alive_in_def in_range_def)

lemma scan_rows:
  assumes "width g = Inr w"
  shows "scan_neighbors oob g p x y =
     Inr (fold (\<lambda>i (c, rs).
            if i < 0 \<or> i \<ge> height g \<or> i \<ge> w then (c, rs)
            else (c + (if 0 \<le> y - 1 then alive_at oob g p i (y - 1) else 0)
                  + (if i \<noteq> x \<and> 0 \<le> y then alive_at oob g p i y else 0)
                  + (if 0 \<le> y + 1 then alive_at oob g p i (y + 1) else 0),
                rs @ (if 0 \<le> y - 1 then [(i, y - 1)] else [])
                   @ (if i \<noteq> x \<and> 0 \<le> y then [(i, y)] else [])
                   @ (if 0 \<le> y + 1 then [(i, y + 1)] else [])))
          [x - 1..x + 1] (0, []))"
proof -
  have step: "(if i < 0 \<or> i \<ge> height g then Inr acc
       else for_each [y - 1..y + 1] (\<lambda>j (count, reads).
         case width g of
           Inl e \<Rightarrow> Inl e
         | Inr w \<Rightarrow>
             if j < 0 \<or> i \<ge> w then Inr (count, reads)
             else if i \<noteq> x \<or> j \<noteq> y then
               (if cell_at oob g i j = p then Inr (count + 1, reads @ [(i, j)])
                else Inr (count, reads @ [(i, j)]))
             else Inr (count, reads)) acc) =
     Inr ((\<lambda>(c, rs).
            if i < 0 \<or> i \<ge> height g \<or> i \<ge> w then (c, rs)
            else (c + (if 0 \<le> y - 1 then alive_at oob g p i (y - 1) else 0)
                  + (if i \<noteq> x \<and> 0 \<le> y then alive_at oob g p i y else 0)
                  + (if 0 \<le> y + 1 then alive_at oob g p i (y + 1) else 0),
                rs @ (if 0 \<le> y - 1 then [(i, y - 1)] else [])
                   @ (if i \<noteq> x \<and> 0 \<le> y then [(i, y)] else [])
                   @ (if 0 \<le> y + 1 then [(i, y + 1)] else []))) acc)" for i acc
  proof (cases acc)
    case (Pair c rs)
    show ?thesis
    proof (cases "i < 0 \<or> i \<ge> height g")
      case True
      then show ?thesis by (auto simp: Pair)
    next
      case False
      then have i: "0 \<le> i" "i < height g" by simp_all
      show ?thesis using False unfolding Pair scan_row [OF assms i] by simp
    qed
  qed
  show ?thesis
    unfolding scan_neighbors_def by (rule for_each_pure) (rule step)
qed

lemma check_neighbors_rows:
  assumes "width g = Inr w"
  shows "check_neighbors oob g p x y =
     Inr (row_count oob g p w x y (x - 1) + row_count oob g p w x y x +
          row_count oob g p w x y (x + 1))"
proof -
  let ?F = "\<lambda>i (c, rs).
            if i < 0 \<or> i \<ge> height g \<or> i \<ge> w then (c, rs)
            else (c + (if 0 \<le> y - 1 then alive_at oob g p i (y - 1) else 0)
                  + (if i \<noteq> x \<and> 0 \<le> y then alive_at oob g p i y else 0)
                  + (if 0 \<le> y + 1 then alive_at oob g p i (y + 1) else 0),
                rs @ (if 0 \<le> y - 1 then [(i, y - 1)] else [])
                   @ (if i \<noteq> x \<and> 0 \<le> y then [(i, y)] else [])
                   @ (if 0 \<le> y + 1 then [(i, y + 1)] else []))"
  have F: "fst (?F i acc) = fst acc + row_count oob g p w x y i" for i acc
    by (cases acc) (simp add: row_count_def)
  have "fst (fold ?F [x - 1, x, x + 1] (0, [])) =
      row_count oob g p w x y (x - 1) + row_count oob g p w x y x +
      row_count oob g p w x y (x + 1)"
    unfolding fold_simps o_apply F by simp
  then show ?thesis
    unfolding check_neighbors_def scan_rows [OF assms] upto3 by simp
qed

lemma row_count_clear:
  assumes "\<And>i j. \<not> in_range g i j \<Longrightarrow> oob i j \<noteq> p" and "height g \<le> w"
  shows "row_count oob g p w x y i =
     alive_in g p i (y - 1) + (if i \<noteq> x then alive_in g p i y else 0) + alive_in g p i (y + 1)"
proof (cases "i < 0 \<or> i \<ge> height g")
  case True
  then show ?thesis by (auto simp: row_count_def alive_in_outside)
next
  case False
  then have "\<not> (i < 0 \<or> i \<ge> height g \<or> i \<ge> w)" using assms(2) by simp
  moreover have aa: "alive_at oob g p a b = alive_in g p a b" for a b
    using assms(1) by (rule alive_at_clear)
  ultimately have "row_count oob g p w x y i =
      (if 0 \<le> y - 1 then alive_in g p i (y - 1) else 0)
           + (if i \<noteq> x \<and> 0 \<le> y then alive_in g p i y else 0)
           + (if 0 \<le> y + 1 then alive_in g p i (y + 1) else 0)"
    unfolding row_count_def by (simp only: if_False aa)
  moreover have "(if 0 \<le> j then alive_in g p i j else 0) = alive_in g p i j" for j
    by (simp add: alive_in_outside)
  moreover have "(if i \<noteq> x \<and> 0 \<le> y then alive_in g p i y else 0) =
      (if i \<noteq> x then alive_in g p i y else 0)"
    by (simp add: alive_in_outside)
  ultimately show ?thesis by (simp add: alive_in_outside)
qed

lemma neighbor_reads_rows:
  assumes "width g = Inr w"
  shows "neighbor_reads g x y =
     Inr (snd (fold (\<lambda>i (c, rs).
            if i < 0 \<or> i \<ge> height g \<or> i \<ge> w then (c, rs)
            else (c + (if 0 \<le> y - 1 then alive_at (\<lambda>_ _. CHR '' '') g CHR '' '' i (y - 1) else 0)
                  + (if i \<noteq> x \<and> 0 \<le> y then alive_at (\<lambda>_ _. CHR '' '') g CHR '' '' i y else 0)
                  + (if 0 \<le> y + 1 then alive_at (\<lambda>_ _. CHR '' '') g CHR '' '' i (y + 1) else 0),
                rs @ (if 0 \<le> y - 1 then [(i, y - 1)] else [])
                   @ (if i \<noteq> x \<and> 0 \<le> y then [(i, y)] else [])
                   @ (if 0 \<le> y + 1 then [(i, y + 1)] else [])))
          [x - 1, x, x + 1] (0, [])))"
  unfolding neighbor_reads_def scan_rows [OF assms] upto3 by simp

subsection \<open>One cell, one row, one band\<close>

text \<open>
  The body of the loops stores the next symbol of its cell; a row of stores, and a band
  of rows, store the next symbols of the cells they visit and change nothing else.
\<close>

lemma check_cell_store:
  "check_cell oob i j s = store_next s i j (next_symbol oob (grid s) (particle s) i j)"
proof -
  have "c < 2 \<or> 3 < c \<longleftrightarrow> \<not> (c = 2 \<or> c = 3)" for c :: int by arith
  then show ?thesis
    by (simp add: check_cell_def check_neighbors_total next_symbol_def rule_def)
qed

lemma stepped_refl: "stepped oob s {} s"
  by (simp add: stepped_def painted_empty)

lemma check_cell_stepped:
  assumes "stepped oob s A t" and "in_range (next_grid s) i j"
  shows "\<exists>t'. check_cell oob i j t = Inr t' \<and> stepped oob s (A \<union> {(i, j)}) t'"
proof -
  let ?f = "next_symbol oob (grid s) (particle s)"
  have p: "painted ?f (next_grid s) A (next_grid t)"
    and eqs: "grid t = grid s" "particle t = particle s" "stale t = stale s"
    using assms(1) by (simp_all add: stepped_def)
  from painted_write [OF p assms(2)] obtain g'
    where g': "write_cell (next_grid t) i j (?f i j) = Inr g'"
      "painted ?f (next_grid s) (insert (i, j) A) g'"
    by blast
  have "check_cell oob i j t = Inr (t\<lparr>next_grid := g'\<rparr>)"
    using g'(1) eqs by (simp add: check_cell_store store_next_def)
  moreover have "stepped oob s (A \<union> {(i, j)}) (t\<lparr>next_grid := g'\<rparr>)"
    using g'(2) eqs by (simp add: stepped_def)
  ultimately show ?thesis by blast
qed

lemma row_stepped:
  assumes "stepped oob s A t" and "\<And>j. j \<in> set js \<Longrightarrow> in_range (next_grid s) i j"
  shows "\<exists>t'. for_each js (\<lambda>j s. check_cell oob i j s) t = Inr t' \<and>
           stepped oob s (A \<union> {i} \<times> set js) t'"
proof -
  have "\<exists>t'. for_each js (\<lambda>j s. check_cell oob i j s) t = Inr t' \<and>
           stepped oob s (A \<union> (\<Union>j\<in>set js. {(i, j)})) t'"
    by (rule for_each_invariant [where P = "stepped oob s", OF assms(1)])
      (use assms(2) check_cell_stepped in blast)
  moreover have "(\<Union>j\<in>set js. {(i, j)}) = {i} \<times> set js" by auto
  ultimately show ?thesis by simp
qed

lemma rows_stepped:
  assumes "stepped oob s A t"
    and "\<And>i j. i \<in> set is \<Longrightarrow> j \<in> set js \<Longrightarrow> in_range (next_grid s) i j"
  shows "\<exists>t'. for_each is (\<lambda>i s. for_each js (\<lambda>j s. check_cell oob i j s) s) t = Inr t' \<and>
           stepped oob s (A \<union> set is \<times> set js) t'"
proof -
  have "\<exists>t'. for_each is (\<lambda>i s. for_each js (\<lambda>j s. check_cell oob i j s) s) t = Inr t' \<and>
           stepped oob s (A \<union> (\<Union>i\<in>set is. {i} \<times> set js)) t'"
    by (rule for_each_invariant [where P = "stepped oob s", OF assms(1)])
      (use assms(2) row_stepped in blast)
  moreover have "(\<Union>i\<in>set is. {i} \<times> set js) = set is \<times> set js" by auto
  ultimately show ?thesis by simp
qed

lemma check_bounded_stepped:
  assumes "stepped oob s A t"
    and "\<And>i j. (i, j) \<in> block start_x h start_y w \<Longrightarrow> in_range (next_grid s) i j"
  shows "\<exists>t'. check_bounded oob h w start_x start_y t = Inr t' \<and>
           stepped oob s (A \<union> block start_x h start_y w) t'"
  unfolding check_bounded_def
  using rows_stepped [OF assms(1), of "[start_x..start_x + h - 1]" "[start_y..start_y + w - 1]"]
    assms(2)
  by (simp add: block_def)

lemma stepped_unique:
  fixes t t' :: GameOfLife
  assumes "stepped oob s A t" and "stepped oob s A t'"
  shows "t = t'"
proof -
  have "next_grid t = next_grid t'"
    using assms by (intro painted_unique [where A = A and B = A]) (auto simp: stepped_def)
  then show ?thesis using assms by (simp add: stepped_def)
qed

lemma stepped_cell:
  assumes "stepped oob s A t" and "in_range (next_grid s) i j" and "(i, j) \<in> A"
  shows "next_grid t ! nat i ! nat j = next_symbol oob (grid s) (particle s) i j"
  using assms by (simp add: stepped_def painted_def)

subsection \<open>The partition\<close>

lemma sdiv_nonneg: "0 \<le> h \<Longrightarrow> 0 < n \<Longrightarrow> h sdiv n = h div (n::int)"
  by (simp add: signed_divide_int_def sgn_if)

lemma smod_nonneg: "0 \<le> h \<Longrightarrow> 0 < n \<Longrightarrow> h smod n = h mod (n::int)"
  by (simp add: signed_modulo_int_def sgn_if)

lemma bands_eq:
  assumes "0 \<le> h" and "0 < n"
  shows "bands h w n = map (band h w n) [0..n - 1]"
  using assms by (simp add: bands_def band_def sdiv_nonneg smod_nonneg Let_def)

lemma length_bands: "0 \<le> h \<Longrightarrow> 0 < n \<Longrightarrow> length (bands h w n) = nat n"
  by (simp add: bands_eq)

lemma nth_bands:
  assumes "0 \<le> h" and "0 < n" and "0 \<le> i" and "i < n"
  shows "bands h w n ! nat i = band h w n i"
  using assms by (simp add: bands_eq)

lemma band_rows_band:
  "band_rows (band h w n i) =
     (if i \<noteq> n - 1 then {i * (h div n)..<i * (h div n) + h div n}
      else {i * (h div n)..<i * (h div n) + (h div n + h mod n)})"
  by (simp add: band_rows_def band_def)

lemma band_rows_disjoint:
  assumes "0 \<le> h" and "0 < n" and "0 \<le> i" and "i < j" and "j < n"
  shows "band_rows (band h w n i) \<inter> band_rows (band h w n j) = {}"
proof -
  have q: "0 \<le> h div n" using assms by (simp add: pos_imp_zdiv_nonneg_iff)
  have "(i + 1) * (h div n) \<le> j * (h div n)"
    using assms q by (intro mult_right_mono) auto
  then have "i * (h div n) + h div n \<le> j * (h div n)" by (simp add: distrib_right)
  moreover have "i \<noteq> n - 1" using assms by simp
  ultimately show ?thesis by (auto simp: band_rows_band)
qed

lemma band_rows_cover:
  assumes "0 \<le> h" and "0 < n"
  shows "(\<Union>i\<in>{0..n - 1}. band_rows (band h w n i)) = {0..<h}"
proof -
  define q where "q = h div n"
  define r where "r = h mod n"
  define m where "m = (n - 1) * q"
  have q: "0 \<le> q" using assms by (simp add: q_def pos_imp_zdiv_nonneg_iff)
  have r: "0 \<le> r" "r < n" using assms by (simp_all add: r_def)
  have "h = n * q + r" by (simp add: q_def r_def)
  also have "n * q = m + q" by (simp add: m_def left_diff_distrib)
  finally have h: "h = m + q + r" .
  have rows: "band_rows (band h w n i) =
     (if i \<noteq> n - 1 then {i * q..<i * q + q} else {m..<m + (q + r)})" for i
    by (simp add: band_rows_band q_def r_def m_def)
  show ?thesis
  proof (intro set_eqI iffI)
    fix x assume "x \<in> (\<Union>i\<in>{0..n - 1}. band_rows (band h w n i))"
    then obtain i where i: "0 \<le> i" "i \<le> n - 1" "x \<in> band_rows (band h w n i)" by auto
    have lo: "0 \<le> i * q" using i q by simp
    have m0: "0 \<le> m" using assms q by (simp add: m_def)
    show "x \<in> {0..<h}"
    proof (cases "i = n - 1")
      case True
      then have "m \<le> x" "x < m + (q + r)" using i(3) by (simp_all add: rows)
      then show ?thesis using m0 h by simp
    next
      case False
      then have x: "i * q \<le> x" "x < i * q + q" using i(3) by (simp_all add: rows)
      from False have "i + 1 \<le> n - 1" using i by simp
      then have "(i + 1) * q \<le> (n - 1) * q" using q by (intro mult_right_mono) auto
      then have "i * q + q \<le> m" by (simp add: m_def distrib_right)
      then show ?thesis using x lo h r q by simp
    qed
  next
    fix x assume "x \<in> {0..<h}"
    then have x: "0 \<le> x" "x < h" by auto
    show "x \<in> (\<Union>i\<in>{0..n - 1}. band_rows (band h w n i))"
    proof (cases "m \<le> x")
      case True
      moreover have "x < m + (q + r)" using x h by simp
      ultimately have "x \<in> band_rows (band h w n (n - 1))"
        by (simp add: rows)
      then show ?thesis using assms by force
    next
      case False
      then have xq: "x < (n - 1) * q" by (simp add: m_def)
      have q0: "0 < q"
      proof (rule ccontr)
        assume "\<not> 0 < q"
        then have "q = 0" using q by simp
        then show False using xq x by simp
      qed
      define i where "i = x div q"
      have i0: "0 \<le> i" using x q0 by (simp add: i_def pos_imp_zdiv_nonneg_iff)
      have "x = i * q + x mod q" by (simp add: i_def)
      moreover have "0 \<le> x mod q" "x mod q < q" using q0 by simp_all
      ultimately have iq: "i * q \<le> x" "x < i * q + q" by linarith+
      have i1: "i < n - 1"
      proof (rule ccontr)
        assume "\<not> i < n - 1"
        then have "(n - 1) * q \<le> i * q" using q by (intro mult_right_mono) auto
        then show False using iq xq by linarith
      qed
      from iq have "x \<in> band_rows (band h w n i)" using i1 by (simp add: rows)
      then show ?thesis using i0 i1 by force
    qed
  qed
qed

lemma band_block_band:
  "band_block (band h w n i) = band_rows (band h w n i) \<times> {0..<w}"
  by (auto simp: band_block_def band_rows_def band_def block_def)

lemma bands_blocks:
  assumes "0 \<le> h" and "0 < n"
  shows "(\<Union>b\<in>set (bands h w n). band_block b) = {0..<h} \<times> {0..<w}"
proof -
  have "(\<Union>b\<in>set (bands h w n). band_block b) =
      (\<Union>i\<in>{0..n - 1}. band_rows (band h w n i)) \<times> {0..<w}"
    using assms by (auto simp: bands_eq band_block_band)
  then show ?thesis using band_rows_cover [OF assms] by simp
qed

subsection \<open>The passes\<close>

text \<open>
  Both passes store the next symbol of every cell of \<open>cells s\<close>, so their results are the
  same state.
\<close>

lemma engine_ok_width: "engine_ok s \<Longrightarrow> width (grid s) = Inr (int (length (hd (grid s))))"
  by (cases "grid s") (simp_all add: engine_ok_def width_def)

lemma engine_ok_in_range:
  assumes "engine_ok s"
  shows "in_range (next_grid s) i j \<longleftrightarrow> (i, j) \<in> cells s"
proof -
  have sh: "map length (next_grid s) = replicate (length (grid s)) (length (hd (grid s)))"
    using assms by (simp add: engine_ok_def shape_def)
  then have len: "length (next_grid s) = length (grid s)"
    by (metis length_map length_replicate)
  have "length (next_grid s ! nat i) = length (hd (grid s))" if "0 \<le> i" "i < height (grid s)"
  proof -
    have "nat i < length (next_grid s)" using that len by (simp add: height_def)
    then have "map length (next_grid s) ! nat i = length (next_grid s ! nat i)" by simp
    then show ?thesis using sh that len by (simp add: height_def)
  qed
  then show ?thesis using len by (auto simp: in_range_def cells_def height_def)
qed

lemma block_cells: "block 0 (height (grid s)) 0 (int (length (hd (grid s)))) = cells s"
  by (auto simp: block_def cells_def)

lemma check_stepped:
  assumes "engine_ok s"
  shows "\<exists>t. check oob s = Inr t \<and> stepped oob s (cells s) t"
proof -
  let ?w = "int (length (hd (grid s)))"
  let ?body = "\<lambda>i s. case width (grid s) of Inl e \<Rightarrow> Inl e
                | Inr w \<Rightarrow> for_each [0..w - 1] (\<lambda>j s. check_cell oob i j s) s"
  have step: "\<exists>t'. ?body i t = Inr t' \<and> stepped oob s (B \<union> {i} \<times> set [0..?w - 1]) t'"
    if "i \<in> set [0..height (grid s) - 1]" and "stepped oob s B t" for i B t
  proof -
    have "grid t = grid s" using that(2) by (simp add: stepped_def)
    then have w: "width (grid t) = Inr ?w" using assms by (simp add: engine_ok_width)
    have i: "0 \<le> i" "i < height (grid s)" using that(1) by simp_all
    have ir: "\<And>j. j \<in> set [0..?w - 1] \<Longrightarrow> in_range (next_grid s) i j"
      using i assms by (simp add: engine_ok_in_range cells_def)
    have "\<exists>t'. for_each [0..?w - 1] (\<lambda>j s. check_cell oob i j s) t = Inr t' \<and>
        stepped oob s (B \<union> {i} \<times> set [0..?w - 1]) t'"
      using that(2) ir by (rule row_stepped)
    then show ?thesis by (simp only: w sum.case)
  qed
  have "\<exists>t. for_each [0..height (grid s) - 1] ?body s = Inr t \<and>
      stepped oob s ({} \<union> (\<Union>i\<in>set [0..height (grid s) - 1]. {i} \<times> set [0..?w - 1])) t"
    by (rule for_each_invariant [where P = "stepped oob s", OF stepped_refl]) (rule step)
  moreover have "(\<Union>i\<in>set [0..height (grid s) - 1]. {i} \<times> set [0..?w - 1]) = cells s"
    by (auto simp: cells_def)
  ultimately show ?thesis by (simp add: check_def)
qed

lemma run_bands_stepped:
  assumes "stepped oob s A t"
    and "\<And>b i j. b \<in> set bs \<Longrightarrow> (i, j) \<in> band_block b \<Longrightarrow> in_range (next_grid s) i j"
  shows "\<exists>t'. run_bands oob bs t = Inr t' \<and> stepped oob s (A \<union> (\<Union>b\<in>set bs. band_block b)) t'"
  unfolding run_bands_def
proof (rule for_each_invariant [where P = "stepped oob s", OF assms(1)])
  fix b B u
  assume b: "b \<in> set bs" and u: "stepped oob s B u"
  obtain h w x y where bq: "b = (h, w, x, y)" by (cases b) auto
  have "\<exists>t'. check_bounded oob h w x y u = Inr t' \<and> stepped oob s (B \<union> block x h y w) t'"
    by (rule check_bounded_stepped [OF u]) (use assms(2) [OF b] bq in \<open>simp add: band_block_def\<close>)
  then show "\<exists>t'. (case b of (height', width', start_x, start_y) \<Rightarrow>
                 check_bounded oob height' width' start_x start_y) u = Inr t' \<and>
            stepped oob s (B \<union> band_block b) t'"
    by (simp add: bq band_block_def)
qed

lemma bands_permuted_stepped:
  assumes "engine_ok s" and "0 < n"
    and "set bs = set (bands (height (grid s)) (int (length (hd (grid s)))) n)"
  shows "\<exists>t. run_bands oob bs s = Inr t \<and> stepped oob s (cells s) t"
proof -
  have h: "0 \<le> height (grid s)" by (simp add: height_def)
  have U: "(\<Union>b\<in>set bs. band_block b) = cells s"
    using bands_blocks [OF h assms(2)] assms(3) by (simp add: cells_def)
  have "\<exists>t'. run_bands oob bs s = Inr t' \<and>
      stepped oob s ({} \<union> (\<Union>b\<in>set bs. band_block b)) t'"
  proof (rule run_bands_stepped [OF stepped_refl])
    fix b i j assume "b \<in> set bs" "(i, j) \<in> band_block b"
    then have "(i, j) \<in> cells s" using U by blast
    then show "in_range (next_grid s) i j" using assms(1) by (simp add: engine_ok_in_range)
  qed
  then show ?thesis using U by simp
qed

lemma check_multithread_stepped:
  assumes "engine_ok s" and "0 < n"
  shows "\<exists>t. check_multithread oob n s = Inr t \<and> stepped oob s (cells s) t"
  using bands_permuted_stepped [OF assms refl, of oob] assms
  by (simp add: check_multithread_def engine_ok_width)

lemma rectangular_in_range:
  assumes "engine_ok s" and "rectangular (grid s)"
  shows "in_range (grid s) i j \<longleftrightarrow> (i, j) \<in> cells s"
proof -
  have "length (grid s ! nat i) = length (hd (grid s))" if "0 \<le> i" "i < height (grid s)"
    using that assms(2) by (simp add: rectangular_def height_def)
  then show ?thesis by (auto simp: in_range_def cells_def)
qed

lemma bands_any_order:
  assumes "engine_ok s" and "0 < n"
    and "set bs = set (bands (height (grid s)) (int (length (hd (grid s)))) n)"
  shows "run_bands oob bs s = check oob s"
proof -
  obtain t where t: "run_bands oob bs s = Inr t" "stepped oob s (cells s) t"
    using bands_permuted_stepped [OF assms] by blast
  obtain t' where t': "check oob s = Inr t'" "stepped oob s (cells s) t'"
    using check_stepped [OF assms(1)] by blast
  have "t' = t" using t'(2) t(2) by (rule stepped_unique)
  then show ?thesis using t(1) t'(1) by simp
qed

subsection \<open>The constructors\<close>

lemma fill_rows_eq:
  "fill_rows rows l =
     (if rows = [] then Inr []
      else if l < 0 then Inl LengthError
      else Inr (replicate (length rows) (replicate (nat l) CHR '' '')))"
  by (induction rows) (auto simp: new_row_def)

lemma Grid_new_blank: "0 < h \<Longrightarrow> 0 \<le> l \<Longrightarrow> Grid_new h l = Inr (blank_grid h l)"
  by (simp add: Grid_new_def fill_rows_eq blank_grid_def)

lemma blank_grid_facts:
  assumes "0 < h" and "0 \<le> l"
  shows "blank_grid h l \<noteq> []" and "height (blank_grid h l) = h"
    and "length (hd (blank_grid h l)) = nat l" and "rectangular (blank_grid h l)"
    and "shape (blank_grid h l) = replicate (nat h) (nat l)"
    and "in_range (blank_grid h l) i j \<longleftrightarrow> 0 \<le> i \<and> i < h \<and> 0 \<le> j \<and> j < l"
    and "in_range (blank_grid h l) i j \<Longrightarrow> blank_grid h l ! nat i ! nat j = CHR '' ''"
proof -
  obtain k where k: "nat h = Suc k" using assms(1) by (cases "nat h") auto
  show "blank_grid h l \<noteq> []" by (simp add: blank_grid_def k)
  show "height (blank_grid h l) = h" using assms by (simp add: blank_grid_def height_def)
  show "length (hd (blank_grid h l)) = nat l" by (simp add: blank_grid_def k)
  show "rectangular (blank_grid h l)" by (simp add: blank_grid_def rectangular_def k)
  show "shape (blank_grid h l) = replicate (nat h) (nat l)" by (simp add: blank_grid_def shape_def)
  show ir: "in_range (blank_grid h l) i j \<longleftrightarrow> 0 \<le> i \<and> i < h \<and> 0 \<le> j \<and> j < l"
    using assms by (auto simp: blank_grid_def in_range_def height_def)
  show "in_range (blank_grid h l) i j \<Longrightarrow> blank_grid h l ! nat i ! nat j = CHR '' ''"
    using assms by (auto simp: blank_grid_def in_range_def height_def)
qed

lemma GameOfLife_grid_result:
  assumes "g \<noteq> []"
  shows "GameOfLife_grid g p =
     Inr \<lparr>grid = map (map (\<lambda>c. if c \<noteq> CHR '' '' then p else c)) g,
          next_grid = replicate (length g) (replicate (length (hd g)) CHR '' ''),
          particle = p, stale = False\<rparr>"
proof -
  have w: "width g = Inr (int (length (hd g)))" using assms by (cases g) (simp_all add: width_def)
  have "0 < height g" using assms by (simp add: height_def)
  then have "Grid_new (height g) (int (length (hd g))) =
      Inr (replicate (length g) (replicate (length (hd g)) CHR '' ''))"
    by (simp add: Grid_new_def fill_rows_eq height_def)
  then show ?thesis by (simp add: GameOfLife_grid_def w replace_particle_def)
qed

lemma GameOfLife_xy_result:
  assumes "0 < x" and "0 \<le> y"
  shows "GameOfLife_xy x y p =
     Inr \<lparr>grid = blank_grid x y, next_grid = blank_grid x y, particle = p, stale = False\<rparr>"
  using assms by (simp add: GameOfLife_xy_def Grid_new_blank replace_particle_def blank_grid_def)

subsection \<open>What update preserves\<close>

lemma next_symbol_alphabet:
  "next_symbol oob g p i j = p \<or> next_symbol oob g p i j = CHR '' ''"
  by (simp add: next_symbol_def rule_def)

lemma stepped_alphabet:
  assumes "engine_ok s" and "stepped oob s (cells s) t"
  shows "over_alphabet (particle s) (next_grid t)"
  unfolding over_alphabet_def
proof (intro ballI)
  fix row c assume "row \<in> set (next_grid t)" "c \<in> set row"
  then obtain a b where a: "a < length (next_grid t)" "row = next_grid t ! a"
    and b: "b < length row" "c = row ! b"
    by (metis in_set_conv_nth)
  have "shape (next_grid t) = shape (next_grid s)"
    using assms(2) by (simp add: stepped_def painted_def)
  then have "in_range (next_grid t) = in_range (next_grid s)" by (rule in_range_shape)
  moreover have "in_range (next_grid t) (int a) (int b)"
    using a b by (simp add: in_range_def height_def)
  ultimately have ir: "in_range (next_grid s) (int a) (int b)" by simp
  then have "(int a, int b) \<in> cells s" using assms(1) by (simp add: engine_ok_in_range)
  with assms(2) ir have "next_grid t ! nat (int a) ! nat (int b) =
      next_symbol oob (grid s) (particle s) (int a) (int b)"
    by (rule stepped_cell)
  then show "c = particle s \<or> c = CHR '' ''"
    using a b next_symbol_alphabet [of oob "grid s" "particle s" "int a" "int b"] by simp
qed

lemma stepped_engine_ok:
  assumes "engine_ok s" and "stepped oob s A t"
  shows "engine_ok t" and "engine_ok (t\<lparr>grid := next_grid t\<rparr>)"
proof -
  have sh: "shape (next_grid t) = replicate (length (grid s)) (length (hd (grid s)))"
    and g: "grid t = grid s" and ne: "grid s \<noteq> []"
    using assms by (simp_all add: stepped_def painted_def engine_ok_def)
  show "engine_ok t" using sh g ne by (simp add: engine_ok_def)
  have len: "length (next_grid t) = length (grid s)"
    using sh by (metis length_map length_replicate shape_def)
  then have ne': "next_grid t \<noteq> []" using ne by auto
  then have "length (hd (next_grid t)) = hd (shape (next_grid t))"
    by (simp add: shape_def hd_map)
  also have "\<dots> = length (hd (grid s))" using sh ne by (cases "grid s") simp_all
  finally show "engine_ok (t\<lparr>grid := next_grid t\<rparr>)"
    using sh len ne' by (simp add: engine_ok_def)
qed

lemma update_preserves:
  assumes "engine_ok s" and "over_alphabet (particle s) (grid s)"
  shows "\<exists>s'. update oob s = Inr s' \<and> engine_ok s' \<and> particle s' = particle s \<and>
     over_alphabet (particle s) (grid s') \<and> over_alphabet (particle s) (next_grid s')"
proof -
  obtain t where t: "check_multithread oob NUM_THREADS s = Inr t" "stepped oob s (cells s) t"
    using check_multithread_stepped [OF assms(1), of NUM_THREADS oob] by (auto simp: NUM_THREADS_def)
  have a: "over_alphabet (particle s) (next_grid t)" using assms(1) t(2) by (rule stepped_alphabet)
  have eqs: "grid t = grid s" "particle t = particle s" using t(2) by (simp_all add: stepped_def)
  note ok = stepped_engine_ok [OF assms(1) t(2)]
  show ?thesis
  proof (cases "grid t = next_grid t")
    case True
    then have "update oob s = Inr (t\<lparr>stale := True\<rparr>)" using t(1) by (simp add: update_def)
    moreover have "engine_ok (t\<lparr>stale := True\<rparr>)" using ok(1) by (simp add: engine_ok_def)
    ultimately show ?thesis using a eqs assms(2) by simp
  next
    case False
    then have "update oob s = Inr (t\<lparr>grid := next_grid t\<rparr>)" using t(1) by (simp add: update_def)
    then show ?thesis using a eqs ok(2) by simp
  qed
qed

lemma updates_preserve:
  assumes "engine_ok s" and "over_alphabet (particle s) (grid s)"
    and "over_alphabet (particle s) (next_grid s)"
  shows "\<exists>s'. updates oobs n s = Inr s' \<and> engine_ok s' \<and> particle s' = particle s \<and>
     over_alphabet (particle s) (grid s') \<and> over_alphabet (particle s) (next_grid s')"
proof (induction n)
  case 0
  then show ?case using assms by simp
next
  case (Suc n)
  then obtain t where t: "updates oobs n s = Inr t" "engine_ok t" "particle t = particle s"
    "over_alphabet (particle s) (grid t)" by blast
  from update_preserves [of t "oobs n"] t
  obtain s' where "update (oobs n) t = Inr s'" "engine_ok s'" "particle s' = particle s"
     "over_alphabet (particle s) (grid s')" "over_alphabet (particle s) (next_grid s')"
    by auto
  then show ?case using t(1) by simp
qed

lemma update_keeps_rectangular:
  assumes "engine_ok s" and "rectangular (grid s)" and "update oob s = Inr s'"
  shows "engine_ok s' \<and> rectangular (grid s')"
proof -
  obtain t where t: "check_multithread oob NUM_THREADS s = Inr t" "stepped oob s (cells s) t"
    using check_multithread_stepped [OF assms(1), of NUM_THREADS oob] by (auto simp: NUM_THREADS_def)
  note ok = stepped_engine_ok [OF assms(1) t(2)]
  have g: "grid t = grid s" using t(2) by (simp add: stepped_def)
  have "shape (next_grid t) = shape (next_grid s)" using t(2) by (simp add: stepped_def painted_def)
  then have sh: "shape (next_grid t) = shape (grid s)"
    using assms(1,2) by (simp add: engine_ok_def rectangular_shape)
  have r: "rectangular (next_grid t)" using sh assms(2) by (rule rectangular_same_shape)
  show ?thesis
  proof (cases "grid t = next_grid t")
    case True
    then have "s' = t\<lparr>stale := True\<rparr>" using t(1) assms(3) by (simp add: update_def)
    then show ?thesis using ok(1) g assms(2) by (simp add: engine_ok_def)
  next
    case False
    then have "s' = t\<lparr>grid := next_grid t\<rparr>" using t(1) assms(3) by (simp add: update_def)
    then show ?thesis using ok(2) r by simp
  qed
qed

subsection \<open>Embedding\<close>

lemma embed_cell_painted:
  assumes "rectangular g0"
    and "painted (\<lambda>a b. cell_at oob other (a - sx) (b - sy)) g0 A g"
  shows "\<exists>g'. embed_cell oob other sx sy i j g = Inr g' \<and>
           painted (\<lambda>a b. cell_at oob other (a - sx) (b - sy)) g0 (A \<union> {(i, j)}) g'"
proof -
  let ?f = "\<lambda>a b. cell_at oob other (a - sx) (b - sy)"
  have sh: "shape g = shape g0" using assms(2) by (simp add: painted_def)
  then have len: "length g = length g0" by (metis length_map shape_def)
  then have hg: "height g = height g0" by (simp add: height_def)
  show ?thesis
  proof (cases "i < 0 \<or> i \<ge> height g")
    case True
    then have "\<not> in_range g0 i j" using hg by (auto simp: in_range_def)
    then have "painted ?f g0 (insert (i, j) A) g" using assms(2) by (intro painted_skip)
    then show ?thesis using True by (simp add: embed_cell_def)
  next
    case False
    then have i: "0 \<le> i" "i < height g0" using hg by simp_all
    then have ne: "g \<noteq> []" "g0 \<noteq> []" using len by (auto simp: height_def)
    have "length (hd g) = hd (shape g)" using ne by (simp add: shape_def hd_map)
    also have "\<dots> = length (hd g0)" using ne sh by (simp add: shape_def hd_map)
    finally have w: "width g = Inr (int (length (hd g0)))" using ne by (simp add: width_nonempty)
    have row: "length (g0 ! nat i) = length (hd g0)" using assms(1) i by (rule rectangular_nth)
    show ?thesis
    proof (cases "j < 0 \<or> j \<ge> int (length (hd g0))")
      case True
      then have "\<not> in_range g0 i j" using row by (auto simp: in_range_def)
      then have "painted ?f g0 (insert (i, j) A) g" using assms(2) by (intro painted_skip)
      then show ?thesis using True False by (simp add: embed_cell_def w)
    next
      case j: False
      then have "in_range g0 i j" using i row by (simp add: in_range_def)
      from painted_write [OF assms(2) this]
      show ?thesis using j False by (simp add: embed_cell_def w)
    qed
  qed
qed

lemma embed_loops_painted:
  assumes "rectangular g0" and "other \<noteq> []"
  shows "\<exists>g. for_each [sx..sx + height other - 1] (\<lambda>i g.
                 case width other of
                   Inl e \<Rightarrow> Inl e
                 | Inr ow \<Rightarrow>
                     for_each [sy..sy + ow - 1]
                       (\<lambda>j g. embed_cell oob other sx sy i j g) g) g0 = Inr g \<and>
           painted (\<lambda>a b. cell_at oob other (a - sx) (b - sy)) g0
             (block sx (height other) sy (int (length (hd other)))) g"
proof -
  let ?f = "\<lambda>a b. cell_at oob other (a - sx) (b - sy)"
  let ?ow = "int (length (hd other))"
  let ?P = "painted ?f g0"
  have w: "width other = Inr ?ow" using assms(2) by (rule width_nonempty)
  have inner: "\<exists>g'. for_each js (\<lambda>j g. embed_cell oob other sx sy i j g) g = Inr g' \<and>
      ?P (B \<union> {i} \<times> set js) g'" if "?P B g" for i js B g
  proof -
    have "\<exists>g'. for_each js (\<lambda>j g. embed_cell oob other sx sy i j g) g = Inr g' \<and>
      ?P (B \<union> (\<Union>j\<in>set js. {(i, j)})) g'"
      by (rule for_each_invariant [where P = "?P", OF that])
        (use assms(1) embed_cell_painted in blast)
    moreover have "(\<Union>j\<in>set js. {(i, j)}) = {i} \<times> set js" by auto
    ultimately show ?thesis by simp
  qed
  have "\<exists>g. for_each [sx..sx + height other - 1] (\<lambda>i g.
                 case width other of
                   Inl e \<Rightarrow> Inl e
                 | Inr ow \<Rightarrow>
                     for_each [sy..sy + ow - 1]
                       (\<lambda>j g. embed_cell oob other sx sy i j g) g) g0 = Inr g \<and>
      ?P ({} \<union> (\<Union>i\<in>set [sx..sx + height other - 1]. {i} \<times> set [sy..sy + ?ow - 1])) g"
    by (rule for_each_invariant [where P = "?P", OF painted_empty])
      (simp only: w sum.case inner)
  moreover have "(\<Union>i\<in>set [sx..sx + height other - 1]. {i} \<times> set [sy..sy + ?ow - 1]) =
      block sx (height other) sy ?ow"
    by (auto simp: block_def)
  ultimately show ?thesis by simp
qed

lemma start_offsets_aligned:
  assumes "this \<noteq> []" and "other \<noteq> []" and "align \<noteq> none"
  shows "start_offsets uninit this other align =
     Inr (offset_row align (height this) (height other),
          offset_col align (int (length (hd this))) (int (length (hd other))))"
  using assms
  by (cases align) (simp_all add: start_offsets_def width_nonempty offset_row_def offset_col_def)

subsection \<open>The loader\<close>

lemma max_length_example: "max_length e [''ab'', ''abc''] = Inr (int (min 2 e))"
proof (cases "2 \<le> e")
  case True
  then show ?thesis by (simp add: max_length_def to_int_def)
next
  case False
  then have "e = 0 \<or> e = 1" by auto
  then show ?thesis by (auto simp: max_length_def to_int_def)
qed

lemma pad_row_keeps:
  assumes "0 \<le> m" and "m \<le> int (length row)" and "m < 2 ^ 64"
  shows "pad_row m row = Inr row"
  using assms by (simp add: pad_row_def to_size_t_def)

lemma to_int_range: "- (2 ^ 31) \<le> to_int k \<and> to_int k < 2 ^ 31"
proof -
  have "0 \<le> (k + 2 ^ 31) mod 2 ^ 32" "(k + 2 ^ 31) mod 2 ^ 32 < (2 ^ 32 :: int)"
    by simp_all
  then show ?thesis by (simp add: to_int_def)
qed

lemma pad_row_nonneg:
  assumes "0 \<le> m" and "m < 2 ^ 31"
  shows "pad_row m row = (if int (length row) < m then Inl LengthError else Inr row)"
proof -
  have m: "to_size_t m = m" using assms by (simp add: to_size_t_def)
  show ?thesis
  proof (cases "int (length row) < m")
    case True
    let ?d = "int (length row) - m"
    have d: "- (2 ^ 31) < ?d" "?d < 0" using True assms by simp_all
    from mod_pos_pos_trivial [of "?d + 2 ^ 64" "2 ^ 64"] d
    have "?d mod 2 ^ 64 = ?d + 2 ^ 64" by simp
    then have "to_size_t ?d > row_max_size - int (length row)"
      using d by (simp add: to_size_t_def row_max_size_def)
    then show ?thesis using True by (simp add: pad_row_def m)
  next
    case False
    then show ?thesis by (simp add: pad_row_def m)
  qed
qed

lemma pad_rows_nonneg:
  assumes "0 \<le> m" and "m < 2 ^ 31" and "pad_rows m g = Inr g'"
  shows "g' = g"
  using assms(3)
  by (induction g arbitrary: g')
    (auto simp: pad_row_nonneg [OF assms(1,2)] split: if_splits sum.splits)

subsection \<open>Evaluation on concrete inputs\<close>

lemmas eval_defs = update_def check_multithread_def run_bands_def bands_def check_bounded_def
  check_cell_def check_neighbors_def scan_neighbors_def store_next_def write_cell_def
  cell_at_def in_range_def height_def width_def NUM_THREADS_def blank_memory_def
  signed_divide_int_def signed_modulo_int_def upto.simps

lemma engine_ok_blinker: "engine_ok blinker"
  by (simp add: engine_ok_def blinker_def shape_def)

lemma rectangular_blinker: "rectangular (grid blinker)"
  by (simp add: rectangular_def blinker_def)

lemma engine_ok_lone_cell: "engine_ok lone_cell"
  by (simp add: engine_ok_def lone_cell_def shape_def)

lemma engine_ok_tall: "engine_ok tall"
  by (simp add: engine_ok_def tall_def shape_def)

lemmas embed_defs = Grid_embed_def Grid_new_def new_row_def start_offsets_def embed_cell_def
  write_cell_def cell_at_def in_range_def height_def width_def
  signed_divide_int_def upto.simps

lemma embed_center_example:
  "Grid_embed oob uninit 6 6 [''ab'', ''cd''] center =
     Inr [''      '', ''      '', ''  ab  '', ''  cd  '', ''      '', ''      '']"
  by (simp add: embed_defs eval_nat_numeral)

lemma embed_bottom_right_example:
  "Grid_embed oob uninit 6 6 [''ab'', ''cd''] bottom_right =
     Inr [''      '', ''      '', ''      '', ''      '', ''    ab'', ''    cd'']"
  by (simp add: embed_defs eval_nat_numeral)

lemma embed_clipped_example:
  "Grid_embed oob uninit 1 1 [''ab'', ''cd''] bottom_right = Inr [''d'']"
  by (simp add: embed_defs eval_nat_numeral)

lemma embed_none_outside:
  "Grid_embed oob (5, 5) 2 2 [''*''] none = Inr [''  '', ''  '']"
  by (simp add: embed_defs eval_nat_numeral)

lemma load_grid_throws:
  "load_grid 5 (Some (''abc'' @ [CHR 0x0A] @ ''a'')) = Inl LengthError"
  by (simp add: load_grid_def max_length_def to_int_def pad_row_def to_size_t_def row_max_size_def)

section \<open>The claims\<close>

text \<open>
  C1. Counting the neighbours of a cell should read only coordinates inside the grid and
  count every alive adjacent cell inside the grid once. On the grid of one cell the
  loop of \<open>check_neighbors\<close> evaluates \<open>grid[0][1]\<close>, a column outside the only row:
  the inner guard compares the row index \<open>i\<close>, not \<open>j\<close>, with the width. The count it
  returns is \<open>1\<close> when the byte found there is the particle, though the cell has no
  neighbour.
\<close>

theorem check_neighbors_reads_outside_row:
  "neighbor_reads [[c]] 0 0 = Inr [(0, 1)] \<and> \<not> in_range [[c]] 0 1 \<and>
   check_neighbors oob [[c]] p 0 0 = Inr (if oob 0 1 = p then 1 else 0) \<and>
   alive_neighbors [[c]] p 0 0 = 0"
  by (simp add: neighbor_reads_def check_neighbors_def scan_neighbors_def height_def width_def
      upto.simps cell_at_def in_range_def alive_neighbors_def adjacent_def)

text \<open>
  The same guard skips every row whose index is not below the width: in a grid of three
  rows and two columns the alive cell \<open>(2, 1)\<close> is not counted for its neighbour
  \<open>(2, 0)\<close>.
\<close>

lemma check_neighbors_skips_row:
  "check_neighbors oob [''  '', ''  '', ''**''] CHR ''*'' 2 0 = Inr 0 \<and>
   alive_neighbors [''  '', ''  '', ''**''] CHR ''*'' 2 0 = 1"
  by (simp add: check_neighbors_def scan_neighbors_def height_def width_def
      upto.simps cell_at_def in_range_def alive_neighbors_def adjacent_def)

text \<open>
  The read outside the row is not special to the grid of one cell: on every grid whose
  first row has a cell, counting for the last cell of the first row reads the column
  behind it.
\<close>

lemma last_column_read_outside:
  assumes "width g = Inr w" and "0 < w"
  shows "\<exists>rs. neighbor_reads g 0 (w - 1) = Inr rs \<and> (0, w) \<in> set rs \<and> \<not> in_range g 0 w"
proof -
  have ne: "g \<noteq> []" using assms(1) by (auto simp: width_def)
  then have h: "0 < height g" by (simp add: height_def)
  have w: "w = int (length (g ! 0))" using assms(1) ne by (cases g) (auto simp: width_def)
  have "\<not> in_range g 0 w" using w by (simp add: in_range_def)
  moreover have "(0, w) \<in> set (snd (fold (\<lambda>i (c, rs).
            if i < 0 \<or> i \<ge> height g \<or> i \<ge> w then (c, rs)
            else (c + (if 0 \<le> (w - 1) - 1 then alive_at (\<lambda>_ _. CHR '' '') g CHR '' '' i ((w - 1) - 1) else 0)
                  + (if i \<noteq> 0 \<and> 0 \<le> (w - 1) then alive_at (\<lambda>_ _. CHR '' '') g CHR '' '' i (w - 1) else 0)
                  + (if 0 \<le> (w - 1) + 1 then alive_at (\<lambda>_ _. CHR '' '') g CHR '' '' i ((w - 1) + 1) else 0),
                rs @ (if 0 \<le> (w - 1) - 1 then [(i, (w - 1) - 1)] else [])
                   @ (if i \<noteq> 0 \<and> 0 \<le> (w - 1) then [(i, w - 1)] else [])
                   @ (if 0 \<le> (w - 1) + 1 then [(i, (w - 1) + 1)] else [])))
          [0 - 1, 0, 0 + 1] (0, [])))"
    using h assms(2) by simp
  ultimately show ?thesis
    unfolding neighbor_reads_rows [OF assms(1)] by blast
qed

text \<open>
  Where the count is right: on a grid that is at least as wide as it is high (the canvas
  the program itself makes is square), and when no byte read outside the rows is the
  particle, \<open>check_neighbors\<close> returns the number of alive neighbours inside the grid,
  for every cell.
\<close>

lemma check_neighbors_correct:
  assumes "\<And>i j. \<not> in_range g i j \<Longrightarrow> oob i j \<noteq> p"
    and "width g = Inr w" and "height g \<le> w"
  shows "check_neighbors oob g p x y = Inr (alive_neighbors g p x y)"
proof -
  have rc: "row_count oob g p w x y i =
     alive_in g p i (y - 1) + (if i \<noteq> x then alive_in g p i y else 0) + alive_in g p i (y + 1)"
    for i
    using assms(1,3) by (rule row_count_clear)
  show ?thesis
    unfolding check_neighbors_rows [OF assms(2)] alive_neighbors_sum
    by (simp add: rc)
qed

text \<open>
  The theorems on the engine speak of states that satisfy \<open>engine_ok\<close>, some of them of
  states whose grid is rectangular as well. These are the states of the program: an
  engine made from a rectangular grid is such a state, and so is every state it reaches
  by calls of \<open>update\<close>.
\<close>

lemma reachable_engine_ok:
  assumes "GameOfLife_grid start_grid p = Inr s0" and "rectangular start_grid"
    and "updates oobs n s0 = Inr s"
  shows "engine_ok s \<and> rectangular (grid s)"
  using assms(3)
proof (induction n arbitrary: s)
  case 0
  have ne: "start_grid \<noteq> []" using assms(1) by (auto simp: GameOfLife_grid_def width_def)
  have s0: "s0 = \<lparr>grid = map (map (\<lambda>c. if c \<noteq> CHR '' '' then p else c)) start_grid,
          next_grid = replicate (length start_grid) (replicate (length (hd start_grid)) CHR '' ''),
          particle = p, stale = False\<rparr>"
    using assms(1) unfolding GameOfLife_grid_result [OF ne] by (simp only: sum.inject)
  have g0: "grid s0 = map (map (\<lambda>c. if c \<noteq> CHR '' '' then p else c)) start_grid"
    and n0: "next_grid s0 =
      replicate (length start_grid) (replicate (length (hd start_grid)) CHR '' '')"
    by (simp_all add: s0)
  have "engine_ok s0" using ne unfolding engine_ok_def g0 n0 by (simp add: shape_def hd_map)
  moreover have "shape (grid s0) = shape start_grid" unfolding g0 by (simp add: shape_def)
  then have "rectangular (grid s0)" using assms(2) by (rule rectangular_same_shape)
  moreover have "s = s0" using 0 by simp
  ultimately show ?case by simp
next
  case (Suc n)
  then obtain t where t: "updates oobs n s0 = Inr t" "update (oobs n) t = Inr s"
    by (auto split: sum.splits)
  from Suc.IH [OF t(1)] have "engine_ok t" "rectangular (grid t)" by simp_all
  then show ?case using t(2) by (rule update_keeps_rectangular)
qed

text \<open>
  What one pass does with the count it computes. The pass, as \<open>update\<close> runs it
  (\<open>check_multithread\<close>, for any number of threads from one up) and as \<open>check\<close> runs it,
  returns normally, leaves the current grid, the particle and the flag as they were,
  keeps the dimensions of the next grid, and stores in every cell of the next grid: the
  particle when the cell of the current grid is alive and the number \<open>check_neighbors\<close>
  returns for it is 2 or 3, the particle when the cell is blank and that number is 3, a
  blank otherwise.
\<close>

lemma pass_rule_on_computed_count:
  assumes "engine_ok s" and "rectangular (grid s)" and "1 \<le> n"
  shows "\<exists>s'. check_multithread oob n s = Inr s' \<and> check oob s = Inr s' \<and>
     grid s' = grid s \<and> particle s' = particle s \<and> stale s' = stale s \<and>
     shape (next_grid s') = shape (grid s) \<and>
     (\<forall>i j. in_range (grid s) i j \<longrightarrow>
        (\<exists>count. check_neighbors oob (grid s) (particle s) i j = Inr count \<and>
           next_grid s' ! nat i ! nat j =
             (if grid s ! nat i ! nat j = particle s \<and> (count = 2 \<or> count = 3) then particle s
              else if grid s ! nat i ! nat j = CHR '' '' \<and> count = 3 then particle s
              else CHR '' '')))"
proof -
  have n: "0 < n" using assms(3) by simp
  obtain t where t: "check_multithread oob n s = Inr t" "stepped oob s (cells s) t"
    using check_multithread_stepped [OF assms(1) n] by blast
  obtain t' where t': "check oob s = Inr t'" "stepped oob s (cells s) t'"
    using check_stepped [OF assms(1)] by blast
  have eq: "t' = t" using t'(2) t(2) by (rule stepped_unique)
  have sh: "shape (next_grid t) = shape (grid s)"
  proof -
    have "shape (next_grid t) = shape (next_grid s)" using t(2) by (simp add: stepped_def painted_def)
    moreover have "shape (grid s) = replicate (length (grid s)) (length (hd (grid s)))"
      using assms(2) unfolding shape_def rectangular_def
      by (intro nth_equalityI) auto
    ultimately show ?thesis using assms(1) by (simp add: engine_ok_def)
  qed
  have cell: "\<exists>count. check_neighbors oob (grid s) (particle s) i j = Inr count \<and>
           next_grid t ! nat i ! nat j =
             (if grid s ! nat i ! nat j = particle s \<and> (count = 2 \<or> count = 3) then particle s
              else if grid s ! nat i ! nat j = CHR '' '' \<and> count = 3 then particle s
              else CHR '' '')" if "in_range (grid s) i j" for i j
  proof -
    have c: "(i, j) \<in> cells s" using that assms by (simp add: rectangular_in_range)
    then have "in_range (next_grid s) i j" using assms(1) by (simp add: engine_ok_in_range)
    with t(2) have "next_grid t ! nat i ! nat j = next_symbol oob (grid s) (particle s) i j"
      using c by (rule stepped_cell)
    then have "next_grid t ! nat i ! nat j =
        rule (particle s) (grid s ! nat i ! nat j) (neighbor_count oob (grid s) (particle s) i j)"
      using that by (simp add: next_symbol_def cell_at_def)
    then show ?thesis
      by (intro exI [of _ "neighbor_count oob (grid s) (particle s) i j"])
        (simp add: check_neighbors_total rule_def)
  qed
  show ?thesis
    using t(1) t'(1) eq t(2) sh cell by (auto simp: stepped_def)
qed

lemma pass_rule_on_computed_count_example:
  "engine_ok blinker \<and> rectangular (grid blinker) \<and>
   (\<exists>s'. check_multithread blank_memory 4 blinker = Inr s' \<and> check blank_memory blinker = Inr s' \<and>
      grid s' = grid blinker \<and> next_grid s' ! 0 ! 1 = CHR ''*'' \<and> next_grid s' ! 1 ! 0 = CHR '' '')"
proof -
  have n: "(1::int) \<le> 4" by simp
  from pass_rule_on_computed_count [OF engine_ok_blinker rectangular_blinker n, of blank_memory]
  obtain s' where s': "check_multithread blank_memory 4 blinker = Inr s'"
      "check blank_memory blinker = Inr s'" "grid s' = grid blinker"
    and cell: "\<And>i j. in_range (grid blinker) i j \<Longrightarrow>
        (\<exists>count. check_neighbors blank_memory (grid blinker) (particle blinker) i j = Inr count \<and>
           next_grid s' ! nat i ! nat j =
             (if grid blinker ! nat i ! nat j = particle blinker \<and> (count = 2 \<or> count = 3)
              then particle blinker
              else if grid blinker ! nat i ! nat j = CHR '' '' \<and> count = 3 then particle blinker
              else CHR '' ''))"
    by blast
  have "in_range (grid blinker) 0 1" by (simp add: blinker_def in_range_def height_def)
  from cell [OF this] have a: "next_grid s' ! 0 ! 1 = CHR ''*''"
    by (simp add: blinker_def eval_defs)
  have "in_range (grid blinker) 1 0" by (simp add: blinker_def in_range_def height_def)
  from cell [OF this] have b: "next_grid s' ! 1 ! 0 = CHR '' ''"
    by (simp add: blinker_def eval_defs)
  show ?thesis
    using engine_ok_blinker rectangular_blinker s' a b by blast
qed

text \<open>
  Under the conditions of \<open>check_neighbors_correct\<close> the pass is the rule of the Game of
  Life on the number of alive neighbours.
\<close>

lemma pass_standard_rule:
  assumes "engine_ok s" and "rectangular (grid s)"
    and "height (grid s) \<le> int (length (hd (grid s)))"
    and "\<And>i j. \<not> in_range (grid s) i j \<Longrightarrow> oob i j \<noteq> particle s"
    and "0 < n"
  shows "\<exists>t. check_multithread oob n s = Inr t \<and>
     (\<forall>i j. in_range (grid s) i j \<longrightarrow>
        next_grid t ! nat i ! nat j =
          rule (particle s) (grid s ! nat i ! nat j) (alive_neighbors (grid s) (particle s) i j))"
proof -
  obtain t where t: "check_multithread oob n s = Inr t" "stepped oob s (cells s) t"
    using check_multithread_stepped [OF assms(1,5)] by blast
  have w: "width (grid s) = Inr (int (length (hd (grid s))))"
    using assms(1) by (rule engine_ok_width)
  have "next_grid t ! nat i ! nat j =
          rule (particle s) (grid s ! nat i ! nat j) (alive_neighbors (grid s) (particle s) i j)"
    if "in_range (grid s) i j" for i j
  proof -
    have c: "(i, j) \<in> cells s" using that assms(1,2) by (simp add: rectangular_in_range)
    then have "in_range (next_grid s) i j" using assms(1) by (simp add: engine_ok_in_range)
    with t(2) have "next_grid t ! nat i ! nat j = next_symbol oob (grid s) (particle s) i j"
      using c by (rule stepped_cell)
    moreover have "neighbor_count oob (grid s) (particle s) i j =
        alive_neighbors (grid s) (particle s) i j"
      using check_neighbors_correct [OF assms(4) w assms(3), where x = i and y = j]
      by (simp add: neighbor_count_def)
    ultimately show ?thesis using that by (simp add: next_symbol_def cell_at_def)
  qed
  then show ?thesis using t(1) by blast
qed

text \<open>
  C2. One pass should store in every cell of the next grid the particle when the cell of
  the current grid is alive and has 2 or 3 alive neighbours, the particle when it is
  blank and has exactly 3, and a blank otherwise, without changing the current grid. On
  the grid of three rows and two columns with the rows \<open>"  "\<close>, \<open>"**"\<close> and \<open>" *"\<close> the
  cell \<open>(2, 0)\<close> is blank and has three alive neighbours, \<open>(1, 0)\<close>, \<open>(1, 1)\<close> and
  \<open>(2, 1)\<close>, so the rule gives the particle; the pass of \<open>check_multithread\<close>, and that
  of \<open>check\<close>, stores a blank there, whatever the memory behind the rows holds. The
  count the pass uses is 2: \<open>check_neighbors\<close> skips row 2, whose index is not below the
  width. It is the defect of C1.
\<close>

theorem pass_departs_from_rule:
  "\<exists>t. check_multithread oob NUM_THREADS tall = Inr t \<and> check oob tall = Inr t \<and>
     grid t = grid tall \<and>
     grid tall ! 2 ! 0 = CHR '' '' \<and>
     alive_neighbors (grid tall) (particle tall) 2 0 = 3 \<and>
     check_neighbors oob (grid tall) (particle tall) 2 0 = Inr 2 \<and>
     rule (particle tall) (grid tall ! 2 ! 0) (alive_neighbors (grid tall) (particle tall) 2 0) =
       particle tall \<and>
     next_grid t ! 2 ! 0 = CHR '' '' \<and> particle tall \<noteq> CHR '' ''"
proof -
  obtain t where t: "check oob tall = Inr t" "stepped oob tall (cells tall) t"
    using check_stepped [OF engine_ok_tall] by blast
  obtain t' where t': "check_multithread oob NUM_THREADS tall = Inr t'"
      "stepped oob tall (cells tall) t'"
    using check_multithread_stepped [OF engine_ok_tall, of NUM_THREADS oob]
    by (auto simp: NUM_THREADS_def)
  have eq: "t' = t" using t'(2) t(2) by (rule stepped_unique)
  have g: "grid t = grid tall" using t(2) by (simp add: stepped_def)
  have c: "(2, 0) \<in> cells tall" by (simp add: cells_def tall_def height_def)
  then have "in_range (next_grid tall) 2 0" using engine_ok_tall by (simp add: engine_ok_in_range)
  with t(2) have "next_grid t ! nat 2 ! nat 0 = next_symbol oob (grid tall) (particle tall) 2 0"
    using c by (rule stepped_cell)
  moreover have cn: "check_neighbors oob (grid tall) (particle tall) 2 0 = Inr 2"
    by (simp add: tall_def check_neighbors_def scan_neighbors_def height_def width_def
        upto.simps cell_at_def in_range_def)
  ultimately have n: "next_grid t ! 2 ! 0 = CHR '' ''"
    by (simp add: next_symbol_def neighbor_count_def rule_def cell_at_def in_range_def
        height_def tall_def)
  have cell: "grid tall ! 2 ! 0 = CHR '' ''" "particle tall \<noteq> CHR '' ''"
    by (simp_all add: tall_def)
  have an: "alive_neighbors (grid tall) (particle tall) 2 0 = 3"
    by (simp add: tall_def alive_neighbors_def adjacent_def in_range_def height_def)
  then have r: "rule (particle tall) (grid tall ! 2 ! 0)
      (alive_neighbors (grid tall) (particle tall) 2 0) = particle tall"
    by (simp add: rule_def tall_def)
  show ?thesis
    using t(1) t'(1) eq g cell an cn r n by simp
qed

text \<open>
  With a blank behind every row the whole pass on that grid gives the rows \<open>"  "\<close>,
  \<open>"  "\<close> and \<open>" *"\<close>, where the rule on the alive neighbours gives \<open>"  "\<close>, \<open>"**"\<close> and
  \<open>"**"\<close>.
\<close>

lemma tall_pass_blank_memory:
  "check_multithread blank_memory NUM_THREADS tall =
     Inr (tall\<lparr>next_grid := [''  '', ''  '', '' *'']\<rparr>)"
  by (simp add: tall_def eval_defs)

text \<open>A blinker in the middle of a grid of three rows and three columns turns.\<close>

lemma blinker_turns:
  "update blank_memory blinker =
     Inr \<lparr>grid = ['' * '', '' * '', '' * ''], next_grid = ['' * '', '' * '', '' * ''],
          particle = CHR ''*'', stale = False\<rparr>"
  by (simp add: blinker_def eval_defs)

text \<open>
  C3. For \<open>h\<close> rows and \<open>n\<close> threads with \<open>1 \<le> n \<le> h\<close>, thread \<open>i\<close> is given the
  rows from \<open>i * (h div n)\<close> up to, not including, \<open>(i + 1) * (h div n)\<close>, and the last
  thread the \<open>h mod n\<close> rows after them as well; the bands are pairwise disjoint, their
  union is the set of all \<open>h\<close> rows, and each band has the columns \<open>0\<close> to \<open>w - 1\<close>.
\<close>

theorem bands_partition:
  assumes "1 \<le> n" and "n \<le> h"
  shows "length (bands h w n) = nat n \<and>
    (\<forall>i. 0 \<le> i \<and> i < n - 1 \<longrightarrow>
       bands h w n ! nat i = (h div n, w, i * (h div n), 0) \<and>
       band_rows (bands h w n ! nat i) = {i * (h div n)..<(i + 1) * (h div n)}) \<and>
    bands h w n ! nat (n - 1) = (h div n + h mod n, w, (n - 1) * (h div n), 0) \<and>
    band_rows (bands h w n ! nat (n - 1)) = {(n - 1) * (h div n)..<n * (h div n) + h mod n} \<and>
    (\<forall>i j. i < j \<and> j < nat n \<longrightarrow>
       band_rows (bands h w n ! i) \<inter> band_rows (bands h w n ! j) = {}) \<and>
    (\<Union>b\<in>set (bands h w n). band_rows b) = {0..<h} \<and>
    (\<forall>b\<in>set (bands h w n). band_cols b = {0..<w})"
proof -
  have h: "0 \<le> h" and n: "0 < n" using assms by simp_all
  have 1: "length (bands h w n) = nat n" using h n by (rule length_bands)
  have 2: "bands h w n ! nat i = (h div n, w, i * (h div n), 0) \<and>
       band_rows (bands h w n ! nat i) = {i * (h div n)..<(i + 1) * (h div n)}"
    if "0 \<le> i \<and> i < n - 1" for i
    using that h n by (simp add: nth_bands band_rows_band distrib_right) (simp add: band_def)
  have 3: "bands h w n ! nat (n - 1) = (h div n + h mod n, w, (n - 1) * (h div n), 0)"
    using h n by (simp add: nth_bands band_def)
  have 4: "band_rows (bands h w n ! nat (n - 1)) =
      {(n - 1) * (h div n)..<n * (h div n) + h mod n}"
    using h n by (simp add: nth_bands band_rows_band left_diff_distrib)
  have 5: "band_rows (bands h w n ! i) \<inter> band_rows (bands h w n ! j) = {}"
    if "i < j \<and> j < nat n" for i j
  proof -
    have "band_rows (band h w n (int i)) \<inter> band_rows (band h w n (int j)) = {}"
      using that h n by (intro band_rows_disjoint) auto
    moreover have "bands h w n ! i = band h w n (int i)" "bands h w n ! j = band h w n (int j)"
      using that h n nth_bands [of h n "int i" w] nth_bands [of h n "int j" w] by auto
    ultimately show ?thesis by simp
  qed
  have 6: "(\<Union>b\<in>set (bands h w n). band_rows b) = {0..<h}"
    using band_rows_cover [OF h n, of w] h n by (simp add: bands_eq)
  have 7: "\<forall>b\<in>set (bands h w n). band_cols b = {0..<w}"
    using h n by (auto simp: bands_eq band_def band_cols_def)
  show ?thesis using 1 2 3 4 5 6 7 by blast
qed

theorem bands_partition_witness:
  "bands 10 7 4 = [(2, 7, 0, 0), (2, 7, 2, 0), (2, 7, 4, 0), (4, 7, 6, 0)] \<and>
   (\<Union>b\<in>set (bands 10 7 4). band_rows b) = {0..<10} \<and>
   band_rows (bands 10 7 4 ! 1) \<inter> band_rows (bands 10 7 4 ! 3) = {}"
proof -
  have eq: "bands 10 7 4 = [(2, 7, 0, 0), (2, 7, 2, 0), (2, 7, 4, 0), (4, 7, 6, 0)]"
    by (simp add: bands_def signed_divide_int_def signed_modulo_int_def upto.simps)
  have P: "(1::int) \<le> 4" "(4::int) \<le> 10" by simp_all
  note T = bands_partition [OF P, of 7]
  from T have cover: "(\<Union>b\<in>set (bands 10 7 4). band_rows b) = {0..<10}" by blast
  from T have "\<forall>i j. i < j \<and> j < nat 4 \<longrightarrow>
      band_rows (bands 10 7 4 ! i) \<inter> band_rows (bands 10 7 4 ! j) = {}" by blast
  then have "(1::nat) < 3 \<and> 3 < nat 4 \<longrightarrow>
      band_rows (bands 10 7 4 ! 1) \<inter> band_rows (bands 10 7 4 ! 3) = {}" by blast
  then have "band_rows (bands 10 7 4 ! 1) \<inter> band_rows (bands 10 7 4 ! 3) = {}" by simp
  with eq cover show ?thesis by blast
qed

text \<open>
  C4. For an engine whose grid has \<open>h\<close> rows and every number of threads \<open>n\<close> with
  \<open>1 \<le> n \<le> h\<close>, the banded pass returns normally and its result is the result of the
  pass of \<open>check\<close> over the whole grid, from the same state and with the same memory
  around the rows.
\<close>

theorem partitioned_equals_serial:
  assumes "engine_ok s" and "1 \<le> n" and "n \<le> height (grid s)"
  shows "\<exists>s'. check_multithread oob n s = Inr s' \<and> check oob s = Inr s'"
proof -
  have n: "0 < n" using assms(2) by simp
  obtain t where t: "check_multithread oob n s = Inr t" "stepped oob s (cells s) t"
    using check_multithread_stepped [OF assms(1) n] by blast
  obtain t' where t': "check oob s = Inr t'" "stepped oob s (cells s) t'"
    using check_stepped [OF assms(1)] by blast
  have "t' = t" using t'(2) t(2) by (rule stepped_unique)
  then show ?thesis using t(1) t'(1) by simp
qed

theorem partitioned_equals_serial_witness:
  "engine_ok blinker \<and> (2::int) \<le> height (grid blinker) \<and>
   check_multithread blank_memory 2 blinker = check blank_memory blinker \<and>
   check blank_memory blinker =
     Inr (blinker\<lparr>next_grid := ['' * '', '' * '', '' * '']\<rparr>)"
proof -
  have n: "(1::int) \<le> 2" by simp
  have h: "(2::int) \<le> height (grid blinker)" by (simp add: blinker_def height_def)
  have "check blank_memory blinker = Inr (blinker\<lparr>next_grid := ['' * '', '' * '', '' * '']\<rparr>)"
    by (simp add: blinker_def check_def eval_defs)
  then show ?thesis
    using partitioned_equals_serial [OF engine_ok_blinker n h, of blank_memory]
      engine_ok_blinker h by auto
qed

text \<open>
  The threads do not have to finish in the order in which they are started: the bands run
  in any order, each to completion, give the result of \<open>check\<close>.
\<close>

lemma check_multithread_any_order:
  assumes "engine_ok s" and "0 < n"
    and "set bs = set (bands (height (grid s)) (int (length (hd (grid s)))) n)"
  shows "run_bands oob bs s = check oob s"
  using assms by (rule bands_any_order)

text \<open>
  C5 as stated does not hold: on the grid of one alive cell the next generation is the
  blank grid, and after \<open>update\<close> both \<open>grid\<close> and \<open>next_grid\<close> are blank, where a swap
  would leave the old grid, with its alive cell, in \<open>next_grid\<close>.
\<close>

theorem update_not_swap:
  "update blank_memory lone_cell \<noteq> update_as_claimed blank_memory lone_cell"
  by (simp add: update_as_claimed_def lone_cell_def eval_defs)

text \<open>
  C5, amended. After one \<open>update\<close> of an engine: when the next generation computed by
  the pass equals the current grid, the flag \<open>stale\<close> is set and the current grid is
  unchanged; otherwise the current grid is overwritten with a copy of the next
  generation, \<open>next_grid\<close> still holds that generation, and the flag is as it was before.
\<close>

theorem update_copies:
  assumes "engine_ok s"
  shows "\<exists>t. check_multithread oob NUM_THREADS s = Inr t \<and> grid t = grid s \<and>
     stale t = stale s \<and> particle t = particle s \<and>
     update oob s =
       Inr (if next_grid t = grid s then t\<lparr>stale := True\<rparr> else t\<lparr>grid := next_grid t\<rparr>)"
proof -
  obtain t where t: "check_multithread oob NUM_THREADS s = Inr t" "stepped oob s (cells s) t"
    using check_multithread_stepped [OF assms, of NUM_THREADS oob] by (auto simp: NUM_THREADS_def)
  then show ?thesis by (auto simp: update_def stepped_def)
qed

theorem update_copies_witness:
  "engine_ok lone_cell \<and>
   check_multithread blank_memory NUM_THREADS lone_cell = Inr lone_cell \<and>
   update blank_memory lone_cell =
     Inr \<lparr>grid = ['' ''], next_grid = ['' ''], particle = CHR ''*'', stale = False\<rparr>"
proof -
  have c: "check_multithread blank_memory NUM_THREADS lone_cell = Inr lone_cell"
    by (simp add: lone_cell_def eval_defs)
  from update_copies [OF engine_ok_lone_cell, of blank_memory]
  have "update blank_memory lone_cell =
       Inr (if next_grid lone_cell = grid lone_cell then lone_cell\<lparr>stale := True\<rparr>
            else lone_cell\<lparr>grid := next_grid lone_cell\<rparr>)"
    using c by auto
  then have "update blank_memory lone_cell =
     Inr \<lparr>grid = ['' ''], next_grid = ['' ''], particle = CHR ''*'', stale = False\<rparr>"
    by (simp add: lone_cell_def)
  then show ?thesis using engine_ok_lone_cell c by blast
qed

text \<open>
  C6. For a source grid with at least one row and rows of one length, a target height
  above zero, a target length of zero or more and every alignment but \<open>none\<close>, the
  constructor returns a grid of the target dimensions in which the cell \<open>(i, j)\<close> is the
  source cell \<open>(i - row offset, j - column offset)\<close> when that is a cell of the source, and
  blank otherwise, the offsets being those of the alignment formulas. Source cells whose
  target coordinate is outside the target are dropped without a failure.
\<close>

theorem embed_aligned:
  assumes "other \<noteq> []" and "rectangular other" and "0 < h" and "0 \<le> l" and "align \<noteq> none"
  shows "\<exists>g. Grid_embed oob uninit h l other align = Inr g \<and>
     shape g = replicate (nat h) (nat l) \<and>
     (\<forall>i j. 0 \<le> i \<and> i < h \<and> 0 \<le> j \<and> j < l \<longrightarrow>
        g ! nat i ! nat j =
          (let si = i - offset_row align h (height other);
               sj = j - offset_col align l (int (length (hd other)))
           in if 0 \<le> si \<and> si < height other \<and> 0 \<le> sj \<and> sj < int (length (hd other))
              then other ! nat si ! nat sj
              else CHR '' ''))"
proof -
  let ?g0 = "blank_grid h l"
  let ?sx = "offset_row align h (height other)"
  let ?sy = "offset_col align l (int (length (hd other)))"
  let ?ow = "int (length (hd other))"
  note bf = blank_grid_facts [OF assms(3,4)]
  have so: "start_offsets uninit ?g0 other align = Inr (?sx, ?sy)"
    using start_offsets_aligned [OF bf(1) assms(1) assms(5), of uninit] assms(4)
    by (simp add: bf)
  obtain g where g: "for_each [?sx..?sx + height other - 1] (\<lambda>i g.
                 case width other of
                   Inl e \<Rightarrow> Inl e
                 | Inr ow \<Rightarrow>
                     for_each [?sy..?sy + ow - 1]
                       (\<lambda>j g. embed_cell oob other ?sx ?sy i j g) g) ?g0 = Inr g"
      and p: "painted (\<lambda>a b. cell_at oob other (a - ?sx) (b - ?sy)) ?g0
             (block ?sx (height other) ?sy ?ow) g"
    using embed_loops_painted [OF bf(4) assms(1), of ?sx ?sy oob] by blast
  have res: "Grid_embed oob uninit h l other align = Inr g"
    using g by (simp add: Grid_embed_def Grid_new_blank [OF assms(3,4)] so)
  have sh: "shape g = replicate (nat h) (nat l)" using p bf(5) by (simp add: painted_def)
  have cell: "g ! nat i ! nat j =
          (let si = i - ?sx; sj = j - ?sy
           in if 0 \<le> si \<and> si < height other \<and> 0 \<le> sj \<and> sj < ?ow
              then other ! nat si ! nat sj
              else CHR '' '')" if "0 \<le> i \<and> i < h \<and> 0 \<le> j \<and> j < l" for i j
  proof -
    have ir: "in_range ?g0 i j" using that by (simp add: bf(6))
    then have v: "g ! nat i ! nat j =
        (if (i, j) \<in> block ?sx (height other) ?sy ?ow then cell_at oob other (i - ?sx) (j - ?sy)
         else ?g0 ! nat i ! nat j)"
      using p by (simp add: painted_def)
    show ?thesis
    proof (cases "(i, j) \<in> block ?sx (height other) ?sy ?ow")
      case True
      then have s: "0 \<le> i - ?sx" "i - ?sx < height other" "0 \<le> j - ?sy" "j - ?sy < ?ow"
        by (auto simp: block_def)
      then have "in_range other (i - ?sx) (j - ?sy)"
        using rectangular_nth [OF assms(2) s(1,2)] by (simp add: in_range_def)
      then show ?thesis using v True s by (simp add: cell_at_def Let_def)
    next
      case False
      then have "\<not> (0 \<le> i - ?sx \<and> i - ?sx < height other \<and> 0 \<le> j - ?sy \<and> j - ?sy < ?ow)"
        by (auto simp: block_def)
      moreover have "g ! nat i ! nat j = CHR '' ''" using v False bf(7) [OF ir] by simp
      ultimately show ?thesis unfolding Let_def by (simp only: if_False)
    qed
  qed
  show ?thesis using res sh cell by blast
qed

theorem embed_aligned_witness:
  "[''ab'', ''cd''] \<noteq> [] \<and> rectangular [''ab'', ''cd''] \<and>
   (\<exists>g. Grid_embed blank_memory (0, 0) 6 6 [''ab'', ''cd''] center = Inr g \<and>
      shape g = replicate 6 6 \<and> g ! 2 ! 2 = CHR ''a'' \<and> g ! 3 ! 3 = CHR ''d'' \<and>
      g ! 0 ! 0 = CHR '' '')"
proof -
  have r: "rectangular [''ab'', ''cd'']" by (simp add: rectangular_def)
  have ne: "[''ab'', ''cd''] \<noteq> []" by simp
  have h: "(0::int) < 6" "(0::int) \<le> 6" by simp_all
  have a: "center \<noteq> none" by simp
  from embed_aligned [OF ne r h a, of blank_memory "(0, 0)"]
  obtain g where g: "Grid_embed blank_memory (0, 0) 6 6 [''ab'', ''cd''] center = Inr g"
      "shape g = replicate (nat 6) (nat 6)"
    and cell: "\<And>i j. 0 \<le> i \<and> i < 6 \<and> 0 \<le> j \<and> j < 6 \<Longrightarrow>
        g ! nat i ! nat j =
          (let si = i - offset_row center 6 (height [''ab'', ''cd'']);
               sj = j - offset_col center 6 (int (length (hd [''ab'', ''cd''])))
           in if 0 \<le> si \<and> si < height [''ab'', ''cd''] \<and> 0 \<le> sj \<and>
                 sj < int (length (hd [''ab'', ''cd'']))
              then [''ab'', ''cd''] ! nat si ! nat sj
              else CHR '' '')"
    by blast
  note o = offset_row_def offset_col_def height_def signed_divide_int_def
  have c1: "g ! 2 ! 2 = CHR ''a''" using cell [of 2 2] by (simp add: o)
  have c2: "g ! 3 ! 3 = CHR ''d''" using cell [of 3 3] by (simp add: o)
  have c3: "g ! 0 ! 0 = CHR '' ''" using cell [of 0 0] by (simp add: o)
  show ?thesis using r g c1 c2 c3 by auto
qed

text \<open>
  C7. With the alignment \<open>none\<close> the constructor should skip the embedding and return a
  blank canvas. The code runs the embedding loops all the same, from the uninitialised
  \<open>start_x\<close> and \<open>start_y\<close>: when the two hold \<open>0\<close>, the source is copied to the top
  left corner.
\<close>

theorem embed_none_not_blank:
  "Grid_embed oob (0, 0) 2 2 [''*''] none = Inr [''* '', ''  '']"
  by (simp add: embed_defs eval_nat_numeral)

text \<open>
  C8. The loader should pad every row with blanks to the length of the longest row. For
  the file of the lines \<open>ab\<close> and \<open>abc\<close> it returns the two rows as they are, of lengths 2
  and 3, whatever size is found behind the last row.
\<close>

theorem load_grid_ragged:
  "load_grid end_size (Some seed_file) = Inr [''ab'', ''abc'']"
proof -
  have l: "getlines seed_file [] = [''ab'', ''abc'']" by (simp add: seed_file_def)
  have m: "0 \<le> int (min 2 end_size)" "int (min 2 end_size) \<le> 2" by simp_all
  have "pad_row (int (min 2 end_size)) ''ab'' = Inr ''ab''"
    "pad_row (int (min 2 end_size)) ''abc'' = Inr ''abc''"
    using m by (simp_all add: pad_row_keeps)
  then show ?thesis
    by (simp add: load_grid_def l max_length_example)
qed

lemma ragged_not_rectangular: "\<not> rectangular [''ab'', ''abc'']"
  by (simp add: rectangular_def)

text \<open>
  No file is padded: when \<open>max_length\<close> is not negative, the loader either fails or
  returns the lines of the file as they are. On a file without a line it does not
  return.
\<close>

lemma load_grid_no_padding:
  assumes "load_grid end_size (Some content) = Inr g"
    and "max_length end_size (getlines content []) = Inr m" and "0 \<le> m"
  shows "g = getlines content []"
proof -
  have "getlines content [] \<noteq> []" using assms(2) by (auto simp: max_length_def)
  then obtain row rows where "getlines content [] = row # rows"
    by (cases "getlines content []") auto
  then have "m = to_int (int (if length row > end_size then end_size else length row))"
    using assms(2) by (simp add: max_length_def Let_def)
  then have "m < 2 ^ 31" using to_int_range by simp
  moreover have "pad_rows m (getlines content []) = Inr g"
    using assms(1,2) by (simp add: load_grid_def Let_def)
  ultimately show ?thesis using assms(3) pad_rows_nonneg by blast
qed

lemma load_grid_empty_file: "load_grid end_size (Some []) = Inl EmptyGrid"
  by (simp add: load_grid_def max_length_def)

text \<open>
  C9 as stated does not hold: a height of \<open>0\<close> gives the grid without rows, whatever the
  length, and a length of \<open>0\<close> gives rows without cells; neither is rejected.
\<close>

theorem Grid_new_zero_area:
  "Grid_new 0 5 = Inr [] \<and> Grid_new 0 (- 1) = Inr [] \<and> Grid_new 2 0 = Inr [[], []]"
  by (simp add: Grid_new_def fill_rows_eq numeral_2_eq_2)

text \<open>
  C9, amended. \<open>Grid(height, length)\<close> fails when the height is negative, and when the
  height is positive and the length negative; it returns the grid without rows when the
  height is \<open>0\<close>; in every other case it returns the grid of \<open>height\<close> rows of \<open>length\<close>
  blanks.
\<close>

theorem Grid_new_result:
  "Grid_new h l =
     (if h < 0 then Inl LengthError
      else if h = 0 then Inr []
      else if l < 0 then Inl LengthError
      else Inr (replicate (nat h) (replicate (nat l) CHR '' '')))"
  by (simp add: Grid_new_def fill_rows_eq)

theorem Grid_new_result_witness:
  "Grid_new 2 3 = Inr [''   '', ''   ''] \<and> Grid_new (- 1) 3 = Inl LengthError \<and>
   Grid_new 2 (- 1) = Inl LengthError"
  using Grid_new_result [of 2 3] Grid_new_result [of "- 1" 3] Grid_new_result [of 2 "- 1"]
  by (simp add: numeral_2_eq_2 numeral_3_eq_3)

text \<open>
  C10. The engine made by \<open>GameOfLife(Grid, char)\<close> from a grid with at least one row has
  the given particle, its current grid is the start grid with every symbol but the blank
  replaced by the particle, and after any number of calls of \<open>update\<close>, none included,
  every cell of \<open>grid\<close> and of \<open>next_grid\<close> is the particle or a blank.
\<close>

theorem engine_alphabet:
  assumes "start_grid \<noteq> []"
  shows "\<exists>s0. GameOfLife_grid start_grid p = Inr s0 \<and> particle s0 = p \<and>
     grid s0 = map (map (\<lambda>c. if c = CHR '' '' then CHR '' '' else p)) start_grid \<and>
     over_alphabet p (grid s0) \<and> over_alphabet p (next_grid s0) \<and>
     (\<forall>n. \<exists>s. updates oobs n s0 = Inr s \<and> particle s = p \<and>
        over_alphabet p (grid s) \<and> over_alphabet p (next_grid s))"
proof -
  let ?s0 = "\<lparr>grid = map (map (\<lambda>c. if c \<noteq> CHR '' '' then p else c)) start_grid,
          next_grid = replicate (length start_grid) (replicate (length (hd start_grid)) CHR '' ''),
          particle = p, stale = False\<rparr>"
  have c: "GameOfLife_grid start_grid p = Inr ?s0" using assms by (rule GameOfLife_grid_result)
  have ok: "engine_ok ?s0"
    using assms by (simp add: engine_ok_def shape_def hd_map)
  have a1: "over_alphabet (particle ?s0) (grid ?s0)" by (auto simp: over_alphabet_def)
  have a2: "over_alphabet (particle ?s0) (next_grid ?s0)" by (auto simp: over_alphabet_def)
  have g: "grid ?s0 = map (map (\<lambda>c. if c = CHR '' '' then CHR '' '' else p)) start_grid"
    by auto
  have "\<exists>s. updates oobs n ?s0 = Inr s \<and> particle s = p \<and>
        over_alphabet p (grid s) \<and> over_alphabet p (next_grid s)" for n
    using updates_preserve [OF ok a1 a2, of oobs n] by auto
  then show ?thesis using c a1 a2 g by (intro exI [of _ ?s0]) simp
qed

theorem engine_alphabet_witness:
  "[''a*'', '' b''] \<noteq> [] \<and>
   (\<exists>s0. GameOfLife_grid [''a*'', '' b''] CHR ''#'' = Inr s0 \<and> grid s0 = [''##'', '' #''] \<and>
      (\<exists>s. updates blank_memories 2 s0 = Inr s \<and> particle s = CHR ''#'' \<and>
         over_alphabet CHR ''#'' (grid s) \<and> over_alphabet CHR ''#'' (next_grid s)))"
proof -
  have ne: "[''a*'', '' b''] \<noteq> []" by simp
  from engine_alphabet [OF ne, of "CHR ''#''" blank_memories]
  obtain s0 where s0: "GameOfLife_grid [''a*'', '' b''] CHR ''#'' = Inr s0"
      "grid s0 = map (map (\<lambda>c. if c = CHR '' '' then CHR '' '' else CHR ''#'')) [''a*'', '' b'']"
    and steps: "\<And>n. \<exists>s. updates blank_memories n s0 = Inr s \<and> particle s = CHR ''#'' \<and>
        over_alphabet CHR ''#'' (grid s) \<and> over_alphabet CHR ''#'' (next_grid s)"
    by blast
  have "grid s0 = [''##'', '' #'']" using s0(2) by simp
  then show ?thesis using s0(1) steps [of 2] by blast
qed

text \<open>
  The engine made by \<open>GameOfLife(int, int, char)\<close> starts from two blank grids and keeps
  to the alphabet in the same way.
\<close>

lemma engine_alphabet_xy:
  assumes "0 < x" and "0 \<le> y"
  shows "\<exists>s0. GameOfLife_xy x y p = Inr s0 \<and>
     (\<forall>n. \<exists>s. updates oobs n s0 = Inr s \<and> particle s = p \<and>
        over_alphabet p (grid s) \<and> over_alphabet p (next_grid s))"
proof -
  let ?s0 = "\<lparr>grid = blank_grid x y, next_grid = blank_grid x y, particle = p, stale = False\<rparr>"
  note bf = blank_grid_facts [OF assms]
  have c: "GameOfLife_xy x y p = Inr ?s0" using assms by (rule GameOfLife_xy_result)
  have len: "length (blank_grid x y) = nat x" by (simp add: blank_grid_def)
  have ok: "engine_ok ?s0" by (simp add: engine_ok_def bf(1) bf(3) bf(5) len)
  have a: "over_alphabet (particle ?s0) (grid ?s0)" "over_alphabet (particle ?s0) (next_grid ?s0)"
    by (auto simp: over_alphabet_def blank_grid_def)
  have "\<exists>s. updates oobs n ?s0 = Inr s \<and> particle s = p \<and>
        over_alphabet p (grid s) \<and> over_alphabet p (next_grid s)" for n
    using updates_preserve [OF ok a, of oobs n] by auto
  then show ?thesis using c by blast
qed

end
